theory Spec2Isabelle
  imports Main "HOL-Library.Sublist" "HOL-Library.AList" "HOL-Library.Product_Lexorder"
begin

section \<open>Strings and preprocessing\<close>

text \<open>
  A Python \<^verbatim>\<open>str\<close> is modelled as a \<^typ>\<open>string\<close>, a list of 8-bit characters that are
  read as the code points 0 to 255. On this range \<^verbatim>\<open>str.lower\<close> changes the letters
  \<^verbatim>\<open>A-Z\<close> and the Latin-1 capitals 192 to 222 (215, the multiplication sign, apart), and
  the white space of \<^verbatim>\<open>str.split\<close> and of the regular expression class \<^verbatim>\<open>\s\<close> is the
  set 9 to 13, 28 to 32, 133 and 160.
\<close>

definition stopWords :: "string list" where
  "stopWords = [''the'', ''is'', ''and'', ''a'', ''an'', ''in'', ''of'', ''on'', ''for'',
     ''with'', ''to'']"

definition lower_char :: "char \<Rightarrow> char" where
  "lower_char c =
     (let n = (of_char c :: nat)
      in if (65 \<le> n \<and> n \<le> 90) \<or> (192 \<le> n \<and> n \<le> 222 \<and> n \<noteq> 215)
         then char_of (n + 32) else c)"

definition to_lower :: "string \<Rightarrow> string" where
  "to_lower text = map lower_char text"

definition isspace :: "char \<Rightarrow> bool" where
  "isspace c =
     (let n = (of_char c :: nat)
      in (9 \<le> n \<and> n \<le> 13) \<or> (28 \<le> n \<and> n \<le> 32) \<or> n = 133 \<or> n = 160)"

definition isalnum_ascii :: "char \<Rightarrow> bool" where
  "isalnum_ascii c =
     (let n = (of_char c :: nat)
      in (97 \<le> n \<and> n \<le> 122) \<or> (65 \<le> n \<and> n \<le> 90) \<or> (48 \<le> n \<and> n \<le> 57))"

text \<open>\<^verbatim>\<open>re.sub(r"[^a-zA-Z0-9\s]", "", text)\<close>: every character outside the class is deleted.\<close>

definition remove_punctuation :: "string \<Rightarrow> string" where
  "remove_punctuation text = filter (\<lambda>c. isalnum_ascii c \<or> isspace c) text"

definition to_singular :: "string \<Rightarrow> string" where
  "to_singular word =
     (if suffix ''ies'' word \<and> length word > 3 then take (length word - 3) word @ ''y''
      else if suffix ''s'' word \<and> length word > 1 then take (length word - 1) word
      else word)"

text \<open>
  \<^verbatim>\<open>str.split()\<close> with no argument: the maximal runs of characters that are not white
  space, in order. The first argument is the run read so far.
\<close>

fun split_run :: "string \<Rightarrow> string \<Rightarrow> string list" where
  "split_run cur [] = (if cur = [] then [] else [cur])"
| "split_run cur (c # cs) =
     (if isspace c then (if cur = [] then split_run [] cs else cur # split_run [] cs)
      else split_run (cur @ [c]) cs)"

definition str_split :: "string \<Rightarrow> string list" where
  "str_split text = split_run [] text"

text \<open>The body of the loop of \<^verbatim>\<open>tokenize\<close>: what one word of the cleaned text appends.\<close>

definition token_forms :: "string \<Rightarrow> string list" where
  "token_forms token =
     (if token \<notin> set stopWords
      then (let singular = to_singular token
            in if singular \<noteq> token then [token, singular] else [token])
      else [])"

definition tokenize :: "string \<Rightarrow> string list" where
  "tokenize content =
     (let cleaned = to_lower (remove_punctuation content)
      in concat (map token_forms (str_split cleaned)))"

section \<open>Trie\<close>

text \<open>
  A node owns its children: a dictionary from a character to a node, kept as an association
  list in insertion order, which is the order in which \<^verbatim>\<open>children.items()\<close> iterates.
\<close>

datatype TrieNode = TrieNode (is_end_of_word: bool) (children: "(char \<times> TrieNode) list")

definition Trie_empty :: "TrieNode" where
  "Trie_empty = TrieNode False []"

fun Trie_insert :: "string \<Rightarrow> TrieNode \<Rightarrow> TrieNode" where
  "Trie_insert [] (TrieNode e cs) = TrieNode True cs"
| "Trie_insert (c # word) (TrieNode e cs) =
     TrieNode e
       (case map_of cs c of
          None \<Rightarrow> cs @ [(c, Trie_insert word (TrieNode False []))]
        | Some child \<Rightarrow> AList.update c (Trie_insert word child) cs)"

fun Trie_search :: "TrieNode \<Rightarrow> string \<Rightarrow> bool" where
  "Trie_search (TrieNode e cs) [] = e"
| "Trie_search (TrieNode e cs) (c # word) =
     (case map_of cs c of None \<Rightarrow> False | Some child \<Rightarrow> Trie_search child word)"

fun Trie_find_suggestions :: "TrieNode \<Rightarrow> string \<Rightarrow> string list" where
  "Trie_find_suggestions (TrieNode e cs) pre =
     (if e then [pre] else []) @
     concat (map (\<lambda>(c, child). Trie_find_suggestions child (pre @ [c])) cs)"

fun Trie_descend :: "TrieNode \<Rightarrow> string \<Rightarrow> TrieNode option" where
  "Trie_descend node [] = Some node"
| "Trie_descend (TrieNode e cs) (c # word) =
     (case map_of cs c of None \<Rightarrow> None | Some child \<Rightarrow> Trie_descend child word)"

definition Trie_autocomplete :: "TrieNode \<Rightarrow> string \<Rightarrow> string list" where
  "Trie_autocomplete root pre =
     (case Trie_descend root pre of
        None \<Rightarrow> []
      | Some node \<Rightarrow> Trie_find_suggestions node pre)"

section \<open>WebPage\<close>

text \<open>
  \<^verbatim>\<open>defaultdict(int)\<close> as a map with the keys it holds. Reading a missing key stores the
  default 0 under it and returns 0, so a read returns the value and the dictionary after it.
\<close>

definition dd_get :: "('k \<rightharpoonup> int) \<Rightarrow> 'k \<Rightarrow> int \<times> ('k \<rightharpoonup> int)" where
  "dd_get d k = (case d k of None \<Rightarrow> (0, d(k \<mapsto> 0)) | Some v \<Rightarrow> (v, d))"

text \<open>\<^verbatim>\<open>d[k] += n\<close>: a read, then a store.\<close>

definition dd_add :: "('k \<rightharpoonup> int) \<Rightarrow> 'k \<Rightarrow> int \<Rightarrow> ('k \<rightharpoonup> int)" where
  "dd_add d k n = (case dd_get d k of (v, d') \<Rightarrow> d'(k \<mapsto> v + n))"

record WebPage =
  url :: string
  content :: string
  wordFrequency :: "string \<rightharpoonup> int"

text \<open>
  The constructor mutates the trie it is given; the model returns the page and the trie after
  the insertions.
\<close>

definition WebPage_init :: "string \<Rightarrow> string \<Rightarrow> TrieNode \<Rightarrow> WebPage \<times> TrieNode" where
  "WebPage_init u c trie =
     (let tokens = tokenize c
      in case fold (\<lambda>token (freq, t). (dd_add freq token 1, Trie_insert token t)) tokens
                (Map.empty, trie) of
           (freq, trie') \<Rightarrow> (\<lparr>url = u, content = c, wordFrequency = freq\<rparr>, trie'))"

section \<open>InvertedIndex\<close>

text \<open>\<^verbatim>\<open>defaultdict(set)\<close>: a map from a token to the set of page ids.\<close>

type_synonym inverted_index = "string \<rightharpoonup> nat set"

definition InvertedIndex_add_page :: "inverted_index \<Rightarrow> nat \<Rightarrow> string list \<Rightarrow> inverted_index" where
  "InvertedIndex_add_page idx pageId tokens =
     fold (\<lambda>token idx. idx(token \<mapsto> insert pageId (case idx token of None \<Rightarrow> {} | Some S \<Rightarrow> S)))
       tokens idx"

definition InvertedIndex_search :: "inverted_index \<Rightarrow> string \<Rightarrow> nat set" where
  "InvertedIndex_search idx token0 =
     (let token = to_lower token0;
          singular = to_singular token;
          results = {};
          results = (case idx token of Some S \<Rightarrow> results \<union> S | None \<Rightarrow> results);
          results = (case idx singular of Some S \<Rightarrow> results \<union> S | None \<Rightarrow> results)
      in results)"

section \<open>SearchEngine\<close>

datatype error = IndexError | RecursionError

record SearchEngine =
  pages :: "WebPage list"
  index :: inverted_index

definition SearchEngine_init :: SearchEngine where
  "SearchEngine_init = \<lparr>pages = [], index = Map.empty\<rparr>"

definition SearchEngine_add_page :: "SearchEngine \<Rightarrow> WebPage \<Rightarrow> SearchEngine" where
  "SearchEngine_add_page engine page =
     (let pages' = pages engine @ [page];
          pageId = length pages' - 1
      in \<lparr>pages = pages',
          index = InvertedIndex_add_page (index engine) pageId (tokenize (content page))\<rparr>)"

definition has_exact_match :: "string \<Rightarrow> string \<Rightarrow> bool" where
  "has_exact_match c query =
     sublist (to_lower (remove_punctuation query)) (to_lower (remove_punctuation c))"

text \<open>
  The tables of one query. \<^verbatim>\<open>pageMatchCount\<close> is an association list in insertion order,
  the order in which \<^verbatim>\<open>sorted\<close> reads \<^verbatim>\<open>pageMatchCount.items()\<close>;
  \<^verbatim>\<open>pageFrequencySum\<close> is only read by key. The pages are part of the state of the loop,
  since reading \<^verbatim>\<open>wordFrequency[token]\<close> may store a key in a page's dictionary.
\<close>

type_synonym search_state = "WebPage list \<times> (nat \<times> int) list \<times> (nat \<rightharpoonup> int)"

definition al_get :: "(nat \<times> int) list \<Rightarrow> nat \<Rightarrow> int" where
  "al_get d k = (case map_of d k of None \<Rightarrow> 0 | Some v \<Rightarrow> v)"

text \<open>
  The body of the inner loop, for one page id of the result set. \<^verbatim>\<open>self.pages[pageId]\<close>
  raises \<^verbatim>\<open>IndexError\<close> for an id that is not the position of a page; the engine is not
  observed after a raised exception.
\<close>

definition search_visit :: "string \<Rightarrow> nat \<Rightarrow> search_state \<Rightarrow> error + search_state" where
  "search_visit token pageId st =
     (case st of (ps, pageMatchCount, pageFrequencySum) \<Rightarrow>
        let pageMatchCount = AList.update pageId (al_get pageMatchCount pageId + 1) pageMatchCount
        in if pageId < length ps
           then (case dd_get (wordFrequency (ps ! pageId)) token of
                   (n, freq) \<Rightarrow>
                     Inr (ps[pageId := (ps ! pageId)\<lparr>wordFrequency := freq\<rparr>],
                          pageMatchCount,
                          dd_add pageFrequencySum pageId n))
           else Inl IndexError)"

fun search_results_loop :: "string \<Rightarrow> nat list \<Rightarrow> search_state \<Rightarrow> error + search_state" where
  "search_results_loop token [] st = Inr st"
| "search_results_loop token (pageId # results) st =
     (case search_visit token pageId st of
        Inl e \<Rightarrow> Inl e
      | Inr st' \<Rightarrow> search_results_loop token results st')"

text \<open>
  The language leaves the order open in which \<^verbatim>\<open>for pageId in results\<close> iterates a set.
  CPython walks the set's hash table, so the order depends on the ids and on how the set was
  built: the set of 1 and 8 is iterated 8, 1. The order is a parameter of the model:
  \<open>place token pageId\<close> is the place of the page id in the iteration of the result set of
  the token, and the set is iterated by ascending place (ids of one place by ascending id).
  Every order of a finite set is of this form (\<open>every_order_has_place\<close>).
\<close>

definition set_iteration :: "(nat \<Rightarrow> nat) \<Rightarrow> nat set \<Rightarrow> nat list" where
  "set_iteration place S = sort_key place (sorted_list_of_set S)"

text \<open>
  The iteration by ascending id, which is CPython's for a set of ids below 8, the size of a
  small set's table: each id is its own hash and stands in the slot of its number.
\<close>

definition ascending :: "string \<Rightarrow> nat \<Rightarrow> nat" where
  "ascending token pageId = pageId"

text \<open>The outer loop, over the query tokens.\<close>

fun search_tokens_loop ::
  "(string \<Rightarrow> nat \<Rightarrow> nat) \<Rightarrow> inverted_index \<Rightarrow> string list \<Rightarrow> search_state
     \<Rightarrow> error + search_state" where
  "search_tokens_loop place idx [] st = Inr st"
| "search_tokens_loop place idx (token # queryTokens) st =
     (case search_results_loop token
             (set_iteration (place token) (InvertedIndex_search idx token)) st of
        Inl e \<Rightarrow> Inl e
      | Inr st' \<Rightarrow> search_tokens_loop place idx queryTokens st')"

text \<open>
  One printed line: the page id (the line shows the page's url), the match count, the
  frequency sum and the exact-match mark.
\<close>

type_synonym found = "nat \<times> int \<times> int \<times> bool"

definition dd_read :: "(nat \<rightharpoonup> int) \<Rightarrow> nat \<Rightarrow> int" where
  "dd_read d k = fst (dd_get d k)"

definition sort_key_of :: "nat list \<Rightarrow> (nat \<rightharpoonup> int) \<Rightarrow> nat \<times> int \<Rightarrow> int \<times> int \<times> int" where
  "sort_key_of exactMatches pageFrequencySum x =
     (- of_bool (fst x \<in> set exactMatches), - snd x, - dd_read pageFrequencySum (fst x))"

text \<open>
  \<^verbatim>\<open>sorted\<close> is stable and compares the key tuples lexicographically, as \<^const>\<open>sort_key\<close>
  does on the lexicographic order of triples. The result is the engine after the query and
  the lines in the order printed; no line stands for \<^verbatim>\<open>No results found\<close>.
\<close>

definition SearchEngine_search ::
  "(string \<Rightarrow> nat \<Rightarrow> nat) \<Rightarrow> SearchEngine \<Rightarrow> string \<Rightarrow> error + (SearchEngine \<times> found list)" where
  "SearchEngine_search place engine query =
     (let queryTokens = tokenize query
      in case search_tokens_loop place (index engine) queryTokens (pages engine, [], Map.empty) of
           Inl e \<Rightarrow> Inl e
         | Inr (ps, pageMatchCount, pageFrequencySum) \<Rightarrow>
             let exactMatches =
                   filter (\<lambda>i. has_exact_match (content (ps ! i)) query) [0..<length ps];
                 sortedResults =
                   sort_key (sort_key_of exactMatches pageFrequencySum) pageMatchCount
             in Inr (engine\<lparr>pages := ps\<rparr>,
                     map (\<lambda>(pageId, matchCount).
                            (pageId, matchCount, dd_read pageFrequencySum pageId,
                             pageId \<in> set exactMatches))
                       sortedResults))"

text \<open>The lines of a query alone.\<close>

definition search_rows ::
  "(string \<Rightarrow> nat \<Rightarrow> nat) \<Rightarrow> SearchEngine \<Rightarrow> string \<Rightarrow> error + found list" where
  "search_rows place engine query =
     (case SearchEngine_search place engine query of Inl e \<Rightarrow> Inl e | Inr r \<Rightarrow> Inr (snd r))"

text \<open>
  Ingestion as the main program does it: \<^verbatim>\<open>engine.add_page(WebPage(url, content, trie))\<close>
  on the shared trie. A document is a pair of a url and a content.
\<close>

definition ingest :: "string \<times> string \<Rightarrow> TrieNode \<times> SearchEngine \<Rightarrow> TrieNode \<times> SearchEngine" where
  "ingest doc st =
     (case WebPage_init (fst doc) (snd doc) (fst st) of
        (page, trie') \<Rightarrow> (trie', SearchEngine_add_page (snd st) page))"

definition ingest_all :: "(string \<times> string) list \<Rightarrow> TrieNode \<times> SearchEngine" where
  "ingest_all docs = fold ingest docs (Trie_empty, SearchEngine_init)"

definition Main_docs :: "(string \<times> string) list" where
  "Main_docs =
     [(''https://example.com'', ''This is an example page with a search engine.''),
      (''https://example2.com'', ''Another example page with algorithms and data.''),
      (''https://example3.com'',
       ''The news are spreading quickly. Search engines use algorithms.''),
      (''https://example4.com'', ''Exact match test: example search'')]"

section \<open>Word break\<close>

text \<open>
  The memo is threaded through the calls. The loop over \<^verbatim>\<open>end\<close> in
  \<^verbatim>\<open>range(1, len(s) + 1)\<close> is the second function, with \<^verbatim>\<open>end = k + 1\<close>.

  The interpreter bounds the nesting of calls: a call of a Python function that would exceed
  the recursion limit raises \<^verbatim>\<open>RecursionError\<close>, which nothing here catches. \<open>frames\<close>
  is the number of nested calls that the interpreter still allows at a call: the call itself
  takes one of them and its callees have one less. The helper calls \<^verbatim>\<open>trie.search\<close>,
  which calls no Python function, and itself; in the loop \<open>frames\<close> is what the helper's
  callees have.
\<close>

type_synonym memo = "string \<rightharpoonup> string list"

function word_break_helper ::
    "nat \<Rightarrow> string \<Rightarrow> TrieNode \<Rightarrow> memo \<Rightarrow> error + string list \<times> memo"
  and word_break_loop ::
    "nat \<Rightarrow> nat \<Rightarrow> string \<Rightarrow> TrieNode \<Rightarrow> memo \<Rightarrow> string list \<Rightarrow> error + string list \<times> memo"
where
  "word_break_helper frames s trie memo =
     (if frames = 0 then Inl RecursionError
      else case memo s of
             Some r \<Rightarrow> Inr (r, memo)
           | None \<Rightarrow>
               if s = [] then Inr ([''''], memo)
               else (case word_break_loop (frames - 1) 0 s trie memo [] of
                       Inl e \<Rightarrow> Inl e
                     | Inr (results, memo') \<Rightarrow> Inr (results, memo'(s \<mapsto> results))))"
| "word_break_loop frames k s trie memo results =
     (if k < length s
      then (let word = take (Suc k) s
            in if frames = 0 then Inl RecursionError
               else if Trie_search trie word
               then (case word_break_helper frames (drop (Suc k) s) trie memo of
                       Inl e \<Rightarrow> Inl e
                     | Inr (subs, memo') \<Rightarrow>
                         word_break_loop frames (Suc k) s trie memo'
                           (results @
                            map (\<lambda>sub. word @ (if sub = [] then [] else '' '' @ sub)) subs))
               else word_break_loop frames (Suc k) s trie memo results)
      else Inr (results, memo))"
  by pat_completeness auto
termination
  by (relation "measures
        [\<lambda>x. case x of Inl (_, s, _, _) \<Rightarrow> length s | Inr (_, _, s, _, _, _) \<Rightarrow> length s,
         \<lambda>x. case x of Inl _ \<Rightarrow> 1 | Inr _ \<Rightarrow> 0,
         \<lambda>x. case x of Inl _ \<Rightarrow> 0 | Inr (_, k, s, _, _, _) \<Rightarrow> length s - k]") auto

declare word_break_helper.simps [simp del] word_break_loop.simps [simp del]

text \<open>\<^verbatim>\<open>word_break\<close> is a call itself, and calls the helper with an empty memo.\<close>

definition word_break :: "nat \<Rightarrow> string \<Rightarrow> TrieNode \<Rightarrow> error + string list" where
  "word_break frames s trie =
     (if frames = 0 then Inl RecursionError
      else case word_break_helper (frames - 1) s trie Map.empty of
             Inl e \<Rightarrow> Inl e
           | Inr r \<Rightarrow> Inr (fst r))"

section \<open>Notions of the specification\<close>

text \<open>
  The recursion of the word break with no bound on the nesting of calls: what the helper
  computes when the interpreter's limit is not reached.
\<close>

function unbounded_helper :: "string \<Rightarrow> TrieNode \<Rightarrow> memo \<Rightarrow> string list \<times> memo"
  and unbounded_loop ::
    "nat \<Rightarrow> string \<Rightarrow> TrieNode \<Rightarrow> memo \<Rightarrow> string list \<Rightarrow> string list \<times> memo"
where
  "unbounded_helper s trie memo =
     (case memo s of
        Some r \<Rightarrow> (r, memo)
      | None \<Rightarrow>
          if s = [] then ([''''], memo)
          else (case unbounded_loop 0 s trie memo [] of
                  (results, memo') \<Rightarrow> (results, memo'(s \<mapsto> results))))"
| "unbounded_loop k s trie memo results =
     (if k < length s
      then (let word = take (Suc k) s
            in if Trie_search trie word
               then (case unbounded_helper (drop (Suc k) s) trie memo of
                       (subs, memo') \<Rightarrow>
                         unbounded_loop (Suc k) s trie memo'
                           (results @
                            map (\<lambda>sub. word @ (if sub = [] then [] else '' '' @ sub)) subs))
               else unbounded_loop (Suc k) s trie memo results)
      else (results, memo))"
  by pat_completeness auto
termination
  by (relation "measures
        [\<lambda>x. case x of Inl (s, _, _) \<Rightarrow> length s | Inr (_, s, _, _, _) \<Rightarrow> length s,
         \<lambda>x. case x of Inl _ \<Rightarrow> 1 | Inr _ \<Rightarrow> 0,
         \<lambda>x. case x of Inl _ \<Rightarrow> 0 | Inr (k, s, _, _, _) \<Rightarrow> length s - k]") auto

declare unbounded_helper.simps [simp del] unbounded_loop.simps [simp del]

definition unbounded_break :: "string \<Rightarrow> TrieNode \<Rightarrow> string list" where
  "unbounded_break s trie = fst (unbounded_helper s trie Map.empty)"

text \<open>
  A segmentation of \<open>s\<close> is a list of non-empty words known to the trie whose concatenation
  is \<open>s\<close>; it is rendered with one space between two words.
\<close>

fun join_space :: "string list \<Rightarrow> string" where
  "join_space [] = []"
| "join_space [w] = w"
| "join_space (w # v # ws) = w @ '' '' @ join_space (v # ws)"

definition segmentations :: "TrieNode \<Rightarrow> string \<Rightarrow> string list set" where
  "segmentations trie s =
     {ws. concat ws = s \<and> (\<forall>w\<in>set ws. w \<noteq> [] \<and> Trie_search trie w)}"

definition rendered :: "TrieNode \<Rightarrow> string \<Rightarrow> string set" where
  "rendered trie s = join_space ` segmentations trie s"

text \<open>What the loop of the word break appends for one segmentation of the rest.\<close>

definition prepend_word :: "string \<Rightarrow> string \<Rightarrow> string" where
  "prepend_word word sub = word @ (if sub = [] then [] else '' '' @ sub)"

text \<open>A memo is sound when every entry lists the rendered segmentations of its key.\<close>

definition memo_ok :: "TrieNode \<Rightarrow> memo \<Rightarrow> bool" where
  "memo_ok trie memo = (\<forall>s r. memo s = Some r \<longrightarrow> set r = rendered trie s)"

text \<open>What the loop still has to append, from the end position \<open>k + 1\<close> on.\<close>

definition loop_part :: "TrieNode \<Rightarrow> string \<Rightarrow> nat \<Rightarrow> string set" where
  "loop_part trie s k =
     (\<Union>j\<in>{k..<length s}. if Trie_search trie (take (Suc j) s)
        then prepend_word (take (Suc j) s) ` rendered trie (drop (Suc j) s) else {})"

text \<open>The string argument of a call of the helper or of its loop.\<close>

definition call_string ::
  "nat \<times> string \<times> TrieNode \<times> memo + nat \<times> nat \<times> string \<times> TrieNode \<times> memo \<times> string list
     \<Rightarrow> string" where
  "call_string x = (case x of Inl (_, s, _, _) \<Rightarrow> s | Inr (_, _, s, _, _, _) \<Rightarrow> s)"

text \<open>
  Reading tables with their defaults, and what ingestion stores for a list of documents.
\<close>

definition dd_val :: "('k \<rightharpoonup> int) \<Rightarrow> 'k \<Rightarrow> int" where
  "dd_val d k = (case d k of None \<Rightarrow> 0 | Some v \<Rightarrow> v)"

definition postings :: "inverted_index \<Rightarrow> string \<Rightarrow> nat set" where
  "postings idx k = (case idx k of None \<Rightarrow> {} | Some S \<Rightarrow> S)"

definition token_count :: "string list \<Rightarrow> string \<rightharpoonup> int" where
  "token_count ts k = (if k \<in> set ts then Some (int (count_list ts k)) else None)"

definition page_of :: "string \<times> string \<Rightarrow> WebPage" where
  "page_of doc = \<lparr>url = fst doc, content = snd doc, wordFrequency = token_count (tokenize (snd doc))\<rparr>"

definition posting_list :: "(string \<times> string) list \<Rightarrow> string \<Rightarrow> nat list" where
  "posting_list docs k = filter (\<lambda>i. k \<in> set (tokenize (snd (docs ! i)))) [0..<length docs]"

text \<open>
  The two loops of a query visit the pairs of a query token and a page id of its result set,
  in order; the notions of the ranking are stated on the engine before the query.
\<close>

definition visits ::
  "(string \<Rightarrow> nat \<Rightarrow> nat) \<Rightarrow> inverted_index \<Rightarrow> string list \<Rightarrow> (string \<times> nat) list" where
  "visits place idx ts =
     concat (map (\<lambda>t. map (Pair t) (set_iteration (place t) (InvertedIndex_search idx t))) ts)"

fun visit_all :: "(string \<times> nat) list \<Rightarrow> search_state \<Rightarrow> error + search_state" where
  "visit_all [] st = Inr st"
| "visit_all (v # vs) st =
     (case search_visit (fst v) (snd v) st of Inl e \<Rightarrow> Inl e | Inr st' \<Rightarrow> visit_all vs st')"

text \<open>The place of an element in a list: the number of elements before it.\<close>

definition place_in :: "nat list \<Rightarrow> nat \<Rightarrow> nat" where
  "place_in xs x = length (takeWhile (\<lambda>y. y \<noteq> x) xs)"

text \<open>
  The elements of a list in the order of their first occurrence: the order of the keys of a
  dictionary filled in that order.
\<close>

definition first_occ :: "'a list \<Rightarrow> 'a list" where
  "first_occ xs = rev (remdups (rev xs))"

text \<open>Every posting set is finite and holds positions of pages.\<close>

definition engine_ok :: "SearchEngine \<Rightarrow> bool" where
  "engine_ok e =
     (\<forall>k S. index e k = Some S \<longrightarrow> finite S \<and> (\<forall>i\<in>S. i < length (pages e)))"

text \<open>
  The match count of a document is the number of query tokens, repetitions counted, whose
  lookup holds it; its frequency sum adds, for each of these tokens, the count the document's
  table holds for the token itself (0 when it is not a key).
\<close>

definition matchCount :: "SearchEngine \<Rightarrow> string \<Rightarrow> nat \<Rightarrow> int" where
  "matchCount e q d =
     int (length (filter (\<lambda>t. d \<in> InvertedIndex_search (index e) t) (tokenize q)))"

definition frequencySum :: "SearchEngine \<Rightarrow> string \<Rightarrow> nat \<Rightarrow> int" where
  "frequencySum e q d =
     sum_list (map (\<lambda>t. if d \<in> InvertedIndex_search (index e) t
                          then dd_val (wordFrequency (pages e ! d)) t else 0) (tokenize q))"

definition isExactMatch :: "SearchEngine \<Rightarrow> string \<Rightarrow> nat \<Rightarrow> bool" where
  "isExactMatch e q d = has_exact_match (content (pages e ! d)) q"

definition rank_key :: "SearchEngine \<Rightarrow> string \<Rightarrow> nat \<Rightarrow> int \<times> int \<times> int" where
  "rank_key e q d = (- of_bool (isExactMatch e q d), - matchCount e q d, - frequencySum e q d)"

definition first_matched :: "(string \<Rightarrow> nat \<Rightarrow> nat) \<Rightarrow> SearchEngine \<Rightarrow> string \<Rightarrow> nat list" where
  "first_matched place e q = first_occ (map snd (visits place (index e) (tokenize q)))"

definition found_of :: "SearchEngine \<Rightarrow> string \<Rightarrow> nat \<Rightarrow> found" where
  "found_of e q d = (d, matchCount e q d, frequencySum e q d, isExactMatch e q d)"

definition visit_freq :: "WebPage list \<Rightarrow> nat \<Rightarrow> string \<times> nat \<Rightarrow> int" where
  "visit_freq ps d v = (if snd v = d then dd_val (wordFrequency (ps ! d)) (fst v) else 0)"

definition visited :: "WebPage list \<Rightarrow> (string \<times> nat) list \<Rightarrow> search_state \<Rightarrow> bool" where
  "visited ps0 vs st =
     (case st of (ps, pmc, pfs) \<Rightarrow>
        length ps = length ps0
        \<and> (\<forall>i<length ps0. url (ps ! i) = url (ps0 ! i) \<and> content (ps ! i) = content (ps0 ! i)
              \<and> (\<forall>k. dd_val (wordFrequency (ps ! i)) k = dd_val (wordFrequency (ps0 ! i)) k))
        \<and> map fst pmc = first_occ (map snd vs)
        \<and> (\<forall>d. al_get pmc d = int (count_list (map snd vs) d))
        \<and> (\<forall>d. dd_val pfs d = sum_list (map (visit_freq ps0 d) vs)))"

text \<open>
  The words of a content: the cleaned text, split at white space.
\<close>

definition words_of :: "string \<Rightarrow> string list" where
  "words_of c = str_split (to_lower (remove_punctuation c))"

section \<open>Properties of the trie\<close>

lemma map_of_update_same: "map_of (AList.update c v cs) c = Some v"
  by (simp add: update_conv')

lemma update_update_same: "AList.update c v (AList.update c u cs) = AList.update c v cs"
  by (induction cs) auto

lemma map_of_snoc_fresh: "map_of cs c = None \<Longrightarrow> map_of (cs @ [(c, v)]) c = Some v"
  by (simp add: map_add_def)

lemma update_snoc_fresh:
  "map_of cs c = None \<Longrightarrow> AList.update c v (cs @ [(c, u)]) = cs @ [(c, v)]"
  by (induction cs) (auto split: if_splits)

lemma Trie_insert_twice: "Trie_insert w (Trie_insert w t) = Trie_insert w t"
proof (induction w arbitrary: t)
  case Nil
  show ?case by (cases t) simp
next
  case (Cons c w)
  obtain e cs where t: "t = TrieNode e cs" by (cases t)
  show ?case
  proof (cases "map_of cs c")
    case None
    have "Trie_insert (c # w) (TrieNode e (cs @ [(c, v)])) =
          TrieNode e (cs @ [(c, Trie_insert w v)])" for v
      using None by (simp add: map_of_snoc_fresh update_snoc_fresh del: map_of_append)
    with None show ?thesis
      by (simp add: t Cons.IH)
  next
    case (Some child)
    have "Trie_insert (c # w) (TrieNode e (AList.update c v cs)) =
          TrieNode e (AList.update c (Trie_insert w v) cs)" for v
      by (simp add: map_of_update_same update_update_same)
    with Some show ?thesis
      by (simp add: t Cons.IH)
  qed
qed

text \<open>
  C8: inserting a token a second time leaves the trie as the first insertion made it, so
  membership of every word and the suggestions for every prefix are those after one
  insertion.
\<close>

theorem Trie_insert_idempotent:
  "Trie_insert w (Trie_insert w t) = Trie_insert w t
   \<and> Trie_search (Trie_insert w (Trie_insert w t)) u = Trie_search (Trie_insert w t) u
   \<and> Trie_autocomplete (Trie_insert w (Trie_insert w t)) p = Trie_autocomplete (Trie_insert w t) p"
  by (simp add: Trie_insert_twice)

lemma Trie_search_empty: "\<not> Trie_search (TrieNode False []) v"
  by (cases v) auto

lemma Trie_search_insert: "Trie_search (Trie_insert w t) u \<longleftrightarrow> u = w \<or> Trie_search t u"
proof (induction w arbitrary: t u)
  case Nil
  show ?case by (cases t; cases u) auto
next
  case (Cons c w)
  obtain e cs where t: "t = TrieNode e cs" by (cases t)
  show ?case
  proof (cases u)
    case Nil
    then show ?thesis by (simp add: t)
  next
    case (Cons d v)
    show ?thesis
      by (cases "map_of cs c")
        (auto simp: t Cons Cons.IH Trie_search_empty update_conv' map_add_def
              split: option.splits)
  qed
qed

section \<open>Properties of ingestion\<close>

lemma fold_WebPage:
  "fold (\<lambda>token (freq, t). (dd_add freq token 1, Trie_insert token t)) ts (f, t) =
     (fold (\<lambda>token freq. dd_add freq token 1) ts f, fold Trie_insert ts t)"
  by (induction ts arbitrary: f t) auto

lemma dd_add_apply:
  "dd_add f k n k' = (if k' = k then Some (dd_val f k + n) else f k')"
  by (auto simp: dd_add_def dd_get_def dd_val_def split: option.splits)

lemma fold_dd_add:
  "fold (\<lambda>token freq. dd_add freq token 1) ts f k =
     (if k \<in> set ts then Some (dd_val f k + int (count_list ts k)) else f k)"
proof (induction ts arbitrary: f)
  case Nil
  show ?case by simp
next
  case (Cons a ts)
  show ?case
    by (simp add: Cons.IH) (auto simp: dd_add_apply dd_val_def)
qed

lemma Trie_search_fold:
  "Trie_search (fold Trie_insert ts t) w \<longleftrightarrow> w \<in> set ts \<or> Trie_search t w"
  by (induction ts arbitrary: t) (auto simp: Trie_search_insert)

lemma WebPage_init_page: "fst (WebPage_init u c trie) = page_of (u, c)"
proof -
  have "fold (\<lambda>token freq. dd_add freq token 1) ts Map.empty = token_count ts" for ts
    by (rule ext) (simp add: fold_dd_add token_count_def dd_val_def)
  then show ?thesis
    by (simp add: WebPage_init_def fold_WebPage page_of_def Let_def)
qed

lemma WebPage_init_trie:
  "Trie_search (snd (WebPage_init u c trie)) w \<longleftrightarrow> w \<in> set (tokenize c) \<or> Trie_search trie w"
  by (simp add: WebPage_init_def fold_WebPage Trie_search_fold Let_def)

lemma add_page_Nil: "InvertedIndex_add_page idx p [] = idx"
  by (simp add: InvertedIndex_add_page_def)

lemma add_page_Cons:
  "InvertedIndex_add_page idx p (a # ts) =
     InvertedIndex_add_page (idx(a \<mapsto> insert p (postings idx a))) p ts"
  by (simp add: InvertedIndex_add_page_def postings_def)

lemma add_page_lookup:
  "InvertedIndex_add_page idx p ts k =
     (if k \<in> set ts then Some (insert p (postings idx k)) else idx k)"
proof (induction ts arbitrary: idx)
  case Nil
  show ?case by (simp add: add_page_Nil)
next
  case (Cons a ts)
  show ?case
    by (simp add: add_page_Cons Cons.IH) (auto simp: postings_def)
qed

lemma ingest_all_snoc: "ingest_all (docs @ [d]) = ingest d (ingest_all docs)"
  by (simp add: ingest_all_def)

lemma posting_list_snoc:
  "posting_list (docs @ [d]) k =
     posting_list docs k @ (if k \<in> set (tokenize (snd d)) then [length docs] else [])"
proof -
  have "filter (\<lambda>i. k \<in> set (tokenize (snd ((docs @ [d]) ! i)))) [0..<length docs] =
        filter (\<lambda>i. k \<in> set (tokenize (snd (docs ! i)))) [0..<length docs]"
    by (rule filter_cong) (auto simp: nth_append)
  then show ?thesis by (simp add: posting_list_def)
qed

lemma ingest_all_engine:
  "pages (snd (ingest_all docs)) = map page_of docs
   \<and> (\<forall>k. index (snd (ingest_all docs)) k =
          (if posting_list docs k = [] then None else Some (set (posting_list docs k))))"
proof (induction docs rule: rev_induct)
  case Nil
  show ?case by (simp add: ingest_all_def SearchEngine_init_def posting_list_def)
next
  case (snoc d docs)
  obtain t e where te: "ingest_all docs = (t, e)" by (cases "ingest_all docs")
  from snoc te have p: "pages e = map page_of docs"
    and i: "\<And>k. index e k = (if posting_list docs k = [] then None else Some (set (posting_list docs k)))"
    by auto
  have post: "postings (index e) k = set (posting_list docs k)" for k
    by (simp add: postings_def i)
  have pg: "fst (WebPage_init (fst d) (snd d) t) = page_of d"
    by (simp add: WebPage_init_page)
  have c: "content (page_of d) = snd d" by (simp add: page_of_def)
  show ?case
    by (simp add: ingest_all_snoc te ingest_def split_beta SearchEngine_add_page_def Let_def
          pg p c add_page_lookup post posting_list_snoc i)
qed

lemma ingest_all_pages: "pages (snd (ingest_all docs)) = map page_of docs"
  using ingest_all_engine by blast

lemma ingest_all_index:
  "index (snd (ingest_all docs)) k =
     (if posting_list docs k = [] then None else Some (set (posting_list docs k)))"
  using ingest_all_engine by blast

lemma ingest_all_postings: "postings (index (snd (ingest_all docs))) k = set (posting_list docs k)"
  by (simp add: postings_def ingest_all_index)

lemma ingest_all_trie:
  "Trie_search (fst (ingest_all docs)) w \<longleftrightarrow> (\<exists>d\<in>set docs. w \<in> set (tokenize (snd d)))"
proof (induction docs rule: rev_induct)
  case Nil
  show ?case by (simp add: ingest_all_def Trie_empty_def Trie_search_empty)
next
  case (snoc d docs)
  then show ?case
    by (auto simp: ingest_all_snoc ingest_def split_beta WebPage_init_trie)
qed

lemma InvertedIndex_search_postings:
  "InvertedIndex_search idx t = postings idx (to_lower t) \<union> postings idx (to_singular (to_lower t))"
  by (simp add: InvertedIndex_search_def postings_def Let_def split: option.splits)

section \<open>Properties of the search\<close>

subsection \<open>the iteration of a set\<close>

lemma set_iteration_empty [simp]: "set_iteration p {} = []"
  by (simp add: set_iteration_def)

lemma set_set_iteration [simp]: "finite S \<Longrightarrow> set (set_iteration p S) = S"
  by (simp add: set_iteration_def)

lemma distinct_set_iteration [simp]: "distinct (set_iteration p S)"
  by (simp add: set_iteration_def)

lemma place_in_Cons: "place_in (a # xs) x = (if x = a then 0 else Suc (place_in xs x))"
  by (simp add: place_in_def)

lemma map_place_in: "distinct xs \<Longrightarrow> map (place_in xs) xs = [0..<length xs]"
proof (induction xs)
  case Nil
  show ?case by simp
next
  case (Cons a xs)
  from Cons.prems have "map (place_in (a # xs)) xs = map (\<lambda>x. Suc (place_in xs x)) xs"
    by (auto simp: place_in_Cons)
  also have "\<dots> = map Suc (map (place_in xs) xs)" by (simp add: comp_def)
  also have "\<dots> = map Suc [0..<length xs]" using Cons by simp
  finally have t: "map (place_in (a # xs)) xs = map Suc [0..<length xs]" .
  have u: "[0..<length (a # xs)] = 0 # map Suc [0..<length xs]"
    by (simp add: map_Suc_upt upt_conv_Cons del: upt_Suc)
  show ?case
    by (simp only: list.map t u) (simp add: place_in_Cons)
qed

lemma every_order_has_place:
  assumes "distinct xs"
  shows "set_iteration (place_in xs) (set xs) = xs"
proof -
  let ?l = "set_iteration (place_in xs) (set xs)"
  have m: "map (place_in xs) xs = [0..<length xs]" by (rule map_place_in[OF assms])
  have inj: "inj_on (place_in xs) (set xs)"
    using distinct_map[of "place_in xs" xs] by (simp add: m)
  have "sorted (map (place_in xs) ?l)" by (simp add: set_iteration_def)
  moreover have "distinct (map (place_in xs) ?l)"
    using inj by (simp add: distinct_map)
  moreover have "set (map (place_in xs) ?l) = set (map (place_in xs) xs)" by simp
  moreover have "sorted (map (place_in xs) xs)" "distinct (map (place_in xs) xs)"
    by (simp_all add: m)
  ultimately have "map (place_in xs) ?l = map (place_in xs) xs"
    by (intro sorted_distinct_set_unique)
  with inj show ?thesis
    by (simp add: inj_on_map_eq_map)
qed

subsection \<open>loops as one pass over the visits\<close>

lemma visit_all_append:
  "visit_all (a @ b) st = (case visit_all a st of Inl e \<Rightarrow> Inl e | Inr st' \<Rightarrow> visit_all b st')"
  by (induction a arbitrary: st) (auto split: sum.splits)

lemma results_loop_visit:
  "search_results_loop t ds st = visit_all (map (Pair t) ds) st"
  by (induction ds arbitrary: st) (auto split: sum.splits)

lemma tokens_loop_visit: "search_tokens_loop place idx ts st = visit_all (visits place idx ts) st"
proof (induction ts arbitrary: st)
  case Nil
  show ?case by (simp add: visits_def)
next
  case (Cons t ts)
  have v: "visits place idx (t # ts) =
           map (Pair t) (set_iteration (place t) (InvertedIndex_search idx t)) @ visits place idx ts"
    by (simp add: visits_def)
  show ?case
    by (simp add: v visit_all_append results_loop_visit Cons.IH split: sum.splits)
qed

subsection \<open>one visit\<close>

lemma dd_get_fst: "fst (dd_get d k) = dd_val d k"
  by (simp add: dd_get_def dd_val_def split: option.splits)

lemma dd_get_snd_val: "dd_val (snd (dd_get d k)) k' = dd_val d k'"
  by (simp add: dd_get_def dd_val_def split: option.splits)

lemma dd_add_val: "dd_val (dd_add f k n) k' = (if k' = k then dd_val f k + n else dd_val f k')"
  by (auto simp: dd_val_def dd_add_apply)

lemma al_get_update:
  "al_get (AList.update k v al) k' = (if k' = k then v else al_get al k')"
  by (simp add: al_get_def update_conv')

lemma search_visit_ok:
  "d < length ps \<Longrightarrow>
     search_visit t d (ps, pmc, pfs) =
       Inr (ps[d := (ps ! d)\<lparr>wordFrequency := snd (dd_get (wordFrequency (ps ! d)) t)\<rparr>],
            AList.update d (al_get pmc d + 1) pmc,
            dd_add pfs d (dd_val (wordFrequency (ps ! d)) t))"
  by (simp add: search_visit_def split_beta dd_get_fst)

lemma first_occ_snoc:
  "first_occ (xs @ [x]) = (if x \<in> set xs then first_occ xs else first_occ xs @ [x])"
  by (simp add: first_occ_def)

lemma set_first_occ: "set (first_occ xs) = set xs"
  by (simp add: first_occ_def)

lemma distinct_first_occ: "distinct (first_occ xs)"
  by (simp add: first_occ_def)

lemma visited_step:
  assumes v: "visited ps0 vs (ps, pmc, pfs)" and d: "d < length ps0"
  shows "visited ps0 (vs @ [(t, d)])
           (ps[d := (ps ! d)\<lparr>wordFrequency := snd (dd_get (wordFrequency (ps ! d)) t)\<rparr>],
            AList.update d (al_get pmc d + 1) pmc,
            dd_add pfs d (dd_val (wordFrequency (ps ! d)) t))"
proof -
  from v have len: "length ps = length ps0"
    and pg: "\<And>i. i < length ps0 \<Longrightarrow> url (ps ! i) = url (ps0 ! i) \<and> content (ps ! i) = content (ps0 ! i)
              \<and> (\<forall>k. dd_val (wordFrequency (ps ! i)) k = dd_val (wordFrequency (ps0 ! i)) k)"
    and keys: "map fst pmc = first_occ (map snd vs)"
    and cnt: "\<And>d. al_get pmc d = int (count_list (map snd vs) d)"
    and fs: "\<And>d. dd_val pfs d = sum_list (map (visit_freq ps0 d) vs)"
    by (auto simp: visited_def)
  have k': "map fst (AList.update d (al_get pmc d + 1) pmc) = first_occ (map snd (vs @ [(t, d)]))"
    by (simp add: update_keys keys first_occ_snoc set_first_occ)
  have c': "al_get (AList.update d (al_get pmc d + 1) pmc) d' =
            int (count_list (map snd (vs @ [(t, d)])) d')" for d'
    by (simp add: al_get_update cnt)
  have f': "dd_val (dd_add pfs d (dd_val (wordFrequency (ps ! d)) t)) d' =
            sum_list (map (visit_freq ps0 d') (vs @ [(t, d)]))" for d'
    using pg[OF d] by (simp add: dd_add_val fs visit_freq_def)
  have p': "url (ps[d := (ps ! d)\<lparr>wordFrequency := w\<rparr>] ! i) = url (ps0 ! i)
            \<and> content (ps[d := (ps ! d)\<lparr>wordFrequency := w\<rparr>] ! i) = content (ps0 ! i)"
    if "i < length ps0" for i w
    using pg[OF that] that len by (cases "i = d") simp_all
  have w': "dd_val (wordFrequency
               (ps[d := (ps ! d)\<lparr>wordFrequency := snd (dd_get (wordFrequency (ps ! d)) t)\<rparr>] ! i)) k =
            dd_val (wordFrequency (ps0 ! i)) k"
    if "i < length ps0" for i k
    using pg[OF that] that len by (cases "i = d") (simp_all add: dd_get_snd_val)
  show ?thesis
    unfolding visited_def prod.case
    using len k' c' f' p' w' by (intro conjI allI impI) simp_all
qed

lemma visit_all_visited:
  assumes "\<forall>v\<in>set vs. snd v < length ps0"
  shows "\<exists>st. visit_all vs (ps0, [], Map.empty) = Inr st \<and> visited ps0 vs st"
  using assms
proof (induction vs rule: rev_induct)
  case Nil
  show ?case by (simp add: visited_def first_occ_def al_get_def dd_val_def)
next
  case (snoc v vs)
  then obtain ps pmc pfs where r: "visit_all vs (ps0, [], Map.empty) = Inr (ps, pmc, pfs)"
    and i: "visited ps0 vs (ps, pmc, pfs)"
    by (metis prod_cases3 in_set_conv_decomp append_assoc Un_iff set_append)
  obtain t d where v: "v = (t, d)" by (cases v)
  from snoc.prems v have d: "d < length ps0" by simp
  from i have len: "length ps = length ps0" by (simp add: visited_def)
  show ?case
    using visited_step[OF i d, of t]
    by (simp add: visit_all_append r v search_visit_ok d len)
qed

subsection \<open>sorting\<close>

lemma insort_key_map:
  "insort_key f (g x) (map g xs) = map g (insort_key (\<lambda>y. f (g y)) x xs)"
  by (induction xs) auto

lemma sort_key_map: "sort_key f (map g xs) = map g (sort_key (\<lambda>y. f (g y)) xs)"
  by (induction xs) (auto simp: insort_key_map)

lemma insort_key_cong_set:
  "f x = h x \<Longrightarrow> (\<And>y. y \<in> set ys \<Longrightarrow> f y = h y) \<Longrightarrow> insort_key f x ys = insort_key h x ys"
  by (induction ys) auto

lemma sort_key_cong_set:
  "(\<And>x. x \<in> set xs \<Longrightarrow> f x = h x) \<Longrightarrow> sort_key f xs = sort_key h xs"
proof (induction xs)
  case Nil
  show ?case by simp
next
  case (Cons x xs)
  then have "sort_key f xs = sort_key h xs" by simp
  moreover have "insort_key f x (sort_key h xs) = insort_key h x (sort_key h xs)"
    by (rule insort_key_cong_set) (simp_all add: Cons.prems)
  ultimately show ?case by simp
qed

lemma alist_by_keys:
  "distinct (map fst al) \<Longrightarrow> al = map (\<lambda>k. (k, al_get al k)) (map fst al)"
proof (induction al)
  case Nil
  show ?case by simp
next
  case (Cons a al)
  obtain k v where a: "a = (k, v)" by (cases a)
  from Cons.prems a have nk: "k \<notin> fst ` set al" and dist: "distinct (map fst al)" by auto
  have "map (\<lambda>k'. (k', al_get ((k, v) # al) k')) (map fst al) =
        map (\<lambda>k'. (k', al_get al k')) (map fst al)"
    using nk by (intro map_cong refl) (auto simp: al_get_def)
  with Cons.IH[OF dist] show ?case by (simp add: a al_get_def)
qed

subsection \<open>counting the visits\<close>

lemma count_list_distinct: "distinct xs \<Longrightarrow> count_list xs x = (if x \<in> set xs then 1 else 0)"
  by (induction xs) auto

lemma count_visits:
  assumes "\<And>t. t \<in> set ts \<Longrightarrow> finite (InvertedIndex_search idx t)"
  shows "count_list (map snd (visits place idx ts)) d =
         length (filter (\<lambda>t. d \<in> InvertedIndex_search idx t) ts)"
  using assms
proof (induction ts)
  case Nil
  show ?case by (simp add: visits_def)
next
  case (Cons t ts)
  have v: "map snd (visits place idx (t # ts)) =
           set_iteration (place t) (InvertedIndex_search idx t) @ map snd (visits place idx ts)"
    by (simp add: visits_def comp_def)
  have f: "finite (InvertedIndex_search idx t)" using Cons.prems by simp
  show ?case
    using Cons.IH Cons.prems f by (simp add: v count_list_distinct)
qed

lemma sum_visit_freq_one:
  "distinct ds \<Longrightarrow>
     sum_list (map (visit_freq ps d \<circ> Pair t) ds) =
       (if d \<in> set ds then dd_val (wordFrequency (ps ! d)) t else 0)"
  by (induction ds) (auto simp: visit_freq_def)

lemma sum_visits:
  assumes "\<And>t. t \<in> set ts \<Longrightarrow> finite (InvertedIndex_search idx t)"
  shows "sum_list (map (visit_freq ps d) (visits place idx ts)) =
         sum_list (map (\<lambda>t. if d \<in> InvertedIndex_search idx t
                              then dd_val (wordFrequency (ps ! d)) t else 0) ts)"
  using assms
proof (induction ts)
  case Nil
  show ?case by (simp add: visits_def)
next
  case (Cons t ts)
  have v: "visits place idx (t # ts) =
           map (Pair t) (set_iteration (place t) (InvertedIndex_search idx t)) @ visits place idx ts"
    by (simp add: visits_def)
  have f: "finite (InvertedIndex_search idx t)" using Cons.prems by simp
  show ?case
    using Cons.IH Cons.prems f by (simp add: v sum_visit_freq_one)
qed

lemma set_visits:
  assumes "\<And>t. t \<in> set ts \<Longrightarrow> finite (InvertedIndex_search idx t)"
  shows "set (visits place idx ts) = {(t, d). t \<in> set ts \<and> d \<in> InvertedIndex_search idx t}"
  using assms by (auto simp: visits_def)

subsection \<open>well-formed engines\<close>

lemma engine_ok_search:
  assumes "engine_ok e"
  shows "finite (InvertedIndex_search (index e) t)"
    and "d \<in> InvertedIndex_search (index e) t \<Longrightarrow> d < length (pages e)"
  using assms
  by (auto simp: engine_ok_def InvertedIndex_search_postings postings_def split: option.splits)

lemma ingest_all_engine_ok: "engine_ok (snd (ingest_all docs))"
  by (auto simp: engine_ok_def ingest_all_index ingest_all_pages posting_list_def
           split: if_splits)

subsection \<open>the lines of a query in closed form\<close>

lemma search_closed_form:
  assumes ok: "engine_ok e"
  shows "\<exists>ps. SearchEngine_search place e q =
           Inr (e\<lparr>pages := ps\<rparr>, map (found_of e q) (sort_key (rank_key e q) (first_matched place e q)))
         \<and> length ps = length (pages e)
         \<and> (\<forall>i<length (pages e). url (ps ! i) = url (pages e ! i)
               \<and> content (ps ! i) = content (pages e ! i)
               \<and> (\<forall>k. dd_val (wordFrequency (ps ! i)) k = dd_val (wordFrequency (pages e ! i)) k))"
proof -
  let ?vs = "visits place (index e) (tokenize q)"
  let ?fm = "first_matched place e q"
  have fin: "finite (InvertedIndex_search (index e) t)" for t
    by (rule engine_ok_search(1)[OF ok])
  have sv: "set ?vs = {(t, d). t \<in> set (tokenize q) \<and> d \<in> InvertedIndex_search (index e) t}"
    by (rule set_visits) (rule fin)
  have "\<forall>v\<in>set ?vs. snd v < length (pages e)"
    unfolding sv using engine_ok_search(2)[OF ok] by auto
  from visit_all_visited[OF this] obtain st where
    r: "visit_all ?vs (pages e, [], Map.empty) = Inr st" and i: "visited (pages e) ?vs st"
    by auto
  obtain ps pmc pfs where st: "st = (ps, pmc, pfs)" by (cases st)
  from i st have len: "length ps = length (pages e)"
    and pg: "\<forall>i<length (pages e). url (ps ! i) = url (pages e ! i)
               \<and> content (ps ! i) = content (pages e ! i)
               \<and> (\<forall>k. dd_val (wordFrequency (ps ! i)) k = dd_val (wordFrequency (pages e ! i)) k)"
    and keys: "map fst pmc = ?fm"
    and cnt: "\<And>d. al_get pmc d = int (count_list (map snd ?vs) d)"
    and fs: "\<And>d. dd_val pfs d = sum_list (map (visit_freq (pages e) d) ?vs)"
    by (auto simp: visited_def first_matched_def)
  have mc: "al_get pmc d = matchCount e q d" for d
    by (simp add: cnt matchCount_def count_visits[OF fin])
  have fsum: "dd_read pfs d = frequencySum e q d" for d
    by (simp add: dd_read_def dd_get_fst fs frequencySum_def sum_visits[OF fin])
  have dist: "distinct (map fst pmc)"
    by (simp add: keys first_matched_def distinct_first_occ)
  have pmc: "pmc = map (\<lambda>d. (d, matchCount e q d)) ?fm"
    using alist_by_keys[OF dist] by (simp add: mc keys)
  have bound: "d < length (pages e)" if "d \<in> set ?fm" for d
    using that engine_ok_search(2)[OF ok] sv
    by (auto simp: first_matched_def set_first_occ)
  define exl where "exl = filter (\<lambda>i. has_exact_match (content (ps ! i)) q) [0..<length ps]"
  have ex: "d \<in> set exl \<longleftrightarrow> isExactMatch e q d" if "d \<in> set ?fm" for d
    using bound[OF that] pg len by (simp add: exl_def isExactMatch_def)
  have key: "sort_key_of exl pfs (d, matchCount e q d) = rank_key e q d" if "d \<in> set ?fm" for d
    by (simp add: sort_key_of_def rank_key_def ex[OF that] fsum)
  have sorted: "sort_key (sort_key_of exl pfs) pmc =
                map (\<lambda>d. (d, matchCount e q d)) (sort_key (rank_key e q) ?fm)"
  proof -
    have "sort_key (\<lambda>d. sort_key_of exl pfs (d, matchCount e q d)) ?fm =
          sort_key (rank_key e q) ?fm"
      by (rule sort_key_cong_set) (rule key)
    then show ?thesis
      by (subst pmc) (simp only: sort_key_map)
  qed
  have rows: "map (\<lambda>(pageId, matchCount). (pageId, matchCount, dd_read pfs pageId, pageId \<in> set exl))
                (sort_key (sort_key_of exl pfs) pmc) =
              map (found_of e q) (sort_key (rank_key e q) ?fm)"
    unfolding sorted map_map
    by (rule map_cong) (simp_all add: found_of_def fsum ex)
  have "SearchEngine_search place e q =
          Inr (e\<lparr>pages := ps\<rparr>, map (found_of e q) (sort_key (rank_key e q) ?fm))"
    using rows by (simp add: SearchEngine_search_def Let_def tokens_loop_visit r st exl_def)
  with len pg show ?thesis by blast
qed

subsection \<open>queries that match nothing\<close>

lemma visits_empty:
  "(\<forall>t\<in>set ts. InvertedIndex_search idx t = {}) \<Longrightarrow> visits place idx ts = []"
  by (induction ts) (simp_all add: visits_def)

text \<open>
  C4: a query none of whose tokens matches a document returns the empty list of lines and
  leaves the engine as it was; it raises nothing. This holds for every engine, and it does not
  look at the exact matches: a query made of stopwords has no token, so its result is empty
  also when its normalized text is a substring of a document.
\<close>

theorem search_no_match_empty:
  "(\<forall>t\<in>set (tokenize q). InvertedIndex_search (index e) t = {})
   \<longrightarrow> SearchEngine_search place e q = Inr (e, [])"
  by (simp add: SearchEngine_search_def tokens_loop_visit visits_empty)

subsection \<open>the ranking\<close>

lemma set_first_matched:
  assumes "engine_ok e"
  shows "set (first_matched place e q) = {d. 0 < matchCount e q d}"
proof -
  have fin: "finite (InvertedIndex_search (index e) t)" for t
    by (rule engine_ok_search(1)[OF assms])
  have "set (map snd (visits place (index e) (tokenize q))) =
        {d. \<exists>t\<in>set (tokenize q). d \<in> InvertedIndex_search (index e) t}"
    using set_visits[of "tokenize q" "index e" place, OF fin] by (auto simp: image_iff)
  moreover have "0 < matchCount e q d \<longleftrightarrow>
        (\<exists>t\<in>set (tokenize q). d \<in> InvertedIndex_search (index e) t)" for d
    by (auto simp: matchCount_def filter_empty_conv)
  ultimately show ?thesis by (simp add: first_matched_def set_first_occ)
qed

lemma rank_key_le:
  "rank_key e q a \<le> rank_key e q b \<longleftrightarrow>
     (isExactMatch e q a \<and> \<not> isExactMatch e q b)
     \<or> (isExactMatch e q a = isExactMatch e q b
         \<and> (matchCount e q b < matchCount e q a
             \<or> (matchCount e q a = matchCount e q b \<and> frequencySum e q b \<le> frequencySum e q a)))"
  by (auto simp: rank_key_def less_eq_prod_def)

text \<open>
  C3, as the code has it: on an engine whose posting sets are finite and hold positions of
  pages, the query returns one line for each document with a positive match count, and the
  lines are the stable sort of the documents by the key (exact match, match count, frequency
  sum), descending at each level (\<open>rank_key\<close> negates the three, see \<open>rank_key_le\<close>).
  Documents that tie on the whole key keep the order in which they entered the match count
  table, \<open>first_matched\<close>: the order of the first query token that matches them, and
  within one token's result set the order in which the set is iterated, whatever that order
  is. That order need not be the order of the document ids. The lines are a function of the
  engine, the query and the iteration orders of the result sets.
\<close>

theorem search_ranking:
  "engine_ok e \<Longrightarrow>
     \<exists>e' ids. SearchEngine_search place e q = Inr (e', map (found_of e q) ids)
       \<and> ids = sort_key (rank_key e q) (first_matched place e q)
       \<and> set ids = {d. 0 < matchCount e q d}
       \<and> distinct ids
       \<and> sorted (map (rank_key e q) ids)
       \<and> (\<forall>k. filter (\<lambda>d. rank_key e q d = k) ids =
                filter (\<lambda>d. rank_key e q d = k) (first_matched place e q))"
proof -
  assume ok: "engine_ok e"
  from search_closed_form[OF ok, of place q] obtain ps where
    s: "SearchEngine_search place e q =
          Inr (e\<lparr>pages := ps\<rparr>, map (found_of e q) (sort_key (rank_key e q) (first_matched place e q)))"
    by blast
  have "distinct (first_matched place e q)"
    by (simp add: first_matched_def distinct_first_occ)
  then show ?thesis
    using s set_first_matched[OF ok, of place q]
    by (intro exI[of _ "e\<lparr>pages := ps\<rparr>"] exI[of _ "sort_key (rank_key e q) (first_matched place e q)"])
       (simp add: sort_key_stable)
qed

text \<open>
  What a query leaves unchanged on such an engine: the index, the number of pages, every
  url and content, and every count read with the default 0. The keys of a page's frequency
  table are not in this list.
\<close>

lemma search_frame:
  assumes "engine_ok e"
  shows "\<exists>ps rows. SearchEngine_search place e q = Inr (e\<lparr>pages := ps\<rparr>, rows)
         \<and> length ps = length (pages e)
         \<and> (\<forall>i<length (pages e). url (ps ! i) = url (pages e ! i)
               \<and> content (ps ! i) = content (pages e ! i)
               \<and> (\<forall>k. dd_val (wordFrequency (ps ! i)) k = dd_val (wordFrequency (pages e ! i)) k))"
  using search_closed_form[OF assms, of place q] by blast

lemma search_rows_closed_form:
  assumes "engine_ok e"
  shows "search_rows place e q = Inr (map (found_of e q) (sort_key (rank_key e q) (first_matched place e q)))"
proof -
  from search_closed_form[OF assms, of place q] obtain ps where
    "SearchEngine_search place e q =
       Inr (e\<lparr>pages := ps\<rparr>, map (found_of e q) (sort_key (rank_key e q) (first_matched place e q)))"
    by blast
  then show ?thesis by (simp add: search_rows_def)
qed

section \<open>Properties of tokenization and lookup\<close>

text \<open>Facts for evaluating the text functions on a given string.\<close>

lemmas eval_text = tokenize_def to_lower_def lower_char_def char_of_def bit_Suc_0_iff
  remove_punctuation_def isalnum_ascii_def isspace_def str_split_def token_forms_def
  stopWords_def to_singular_def suffix_to_prefix sublist_code Let_def

lemma lower_char_idem: "lower_char (lower_char c) = lower_char c"
proof -
  have "(of_char c :: nat) mod 256 < 256" by simp
  then have "(of_char c :: nat) < 256" by (simp only: of_char_mod_256)
  then show ?thesis
    by (auto simp: lower_char_def Let_def)
qed

lemma to_lower_idem: "to_lower (to_lower s) = to_lower s"
  by (simp add: to_lower_def lower_char_idem)

lemma split_run_chars: "w \<in> set (split_run cur str) \<Longrightarrow> set w \<subseteq> set cur \<union> set str"
proof (induction str arbitrary: cur)
  case Nil
  then show ?case by (auto split: if_splits)
next
  case (Cons c cs)
  show ?case
  proof (cases "isspace c")
    case True
    with Cons.prems have "w = cur \<or> w \<in> set (split_run [] cs)" by (auto split: if_splits)
    then show ?thesis using Cons.IH[of "[]"] by auto
  next
    case False
    with Cons.prems have "w \<in> set (split_run (cur @ [c]) cs)" by simp
    from Cons.IH[OF this] show ?thesis by auto
  qed
qed

lemma words_lower: "w \<in> set (str_split (to_lower s)) \<Longrightarrow> to_lower w = w"
proof -
  assume "w \<in> set (str_split (to_lower s))"
  then have "set w \<subseteq> set (to_lower s)"
    using split_run_chars[of w "[]" "to_lower s"] by (simp add: str_split_def)
  then have "\<forall>c\<in>set w. lower_char c = c"
    by (auto simp: to_lower_def lower_char_idem)
  then show ?thesis by (simp add: to_lower_def map_idI)
qed

lemma to_singular_lower: "to_lower w = w \<Longrightarrow> to_lower (to_singular w) = to_singular w"
proof -
  assume l: "to_lower w = w"
  have t: "to_lower (take n w) = take n w" for n
    using l by (simp add: to_lower_def take_map[symmetric])
  have y: "to_lower ''y'' = ''y''" by (simp add: eval_text)
  have a: "to_lower (a @ b) = to_lower a @ to_lower b" for a b by (simp add: to_lower_def)
  show ?thesis
    by (simp add: to_singular_def a t y l)
qed

lemma tokenize_words: "tokenize c = concat (map token_forms (words_of c))"
  by (simp add: tokenize_def words_of_def)

lemma word_tokens:
  assumes "w \<in> set (words_of c)" and "w \<notin> set stopWords"
  shows "w \<in> set (tokenize c)" and "to_singular w \<in> set (tokenize c)"
proof -
  from assms(2) have "w \<in> set (token_forms w)" and "to_singular w \<in> set (token_forms w)"
    by (auto simp: token_forms_def Let_def)
  with assms(1) show "w \<in> set (tokenize c)" and "to_singular w \<in> set (tokenize c)"
    by (auto simp: tokenize_words)
qed

lemma count_token_forms:
  "count_list (token_forms w) k =
     (if w \<notin> set stopWords \<and> w = k then 1 else 0)
     + (if w \<notin> set stopWords \<and> to_singular w = k \<and> w \<noteq> k then 1 else 0)"
  by (auto simp: token_forms_def Let_def)

lemma count_tokens:
  "count_list (concat (map token_forms ws)) k =
     length (filter (\<lambda>v. v \<notin> set stopWords \<and> v = k) ws)
     + length (filter (\<lambda>v. v \<notin> set stopWords \<and> to_singular v = k \<and> v \<noteq> k) ws)"
  by (induction ws) (auto simp: count_token_forms)

lemma search_ingested_iff:
  "d \<in> InvertedIndex_search (index (snd (ingest_all docs))) t \<longleftrightarrow>
     d < length docs
     \<and> (to_lower t \<in> set (tokenize (snd (docs ! d)))
        \<or> to_singular (to_lower t) \<in> set (tokenize (snd (docs ! d))))"
  by (auto simp: InvertedIndex_search_postings ingest_all_postings posting_list_def)

lemma search_ingested_set:
  "InvertedIndex_search (index (snd (ingest_all docs))) t =
     set (filter (\<lambda>i. to_lower t \<in> set (tokenize (snd (docs ! i)))
                 \<or> to_singular (to_lower t) \<in> set (tokenize (snd (docs ! i))))
       [0..<length docs])"
  by (auto simp: search_ingested_iff)

text \<open>
  C5, as the code has it: the lookup of a raw token is the union of the postings of its
  lowercased form and of the derived singular of that form, and is empty when neither is a
  key of the index. So a document ingested with a word \<open>w\<close> that is not a stopword is
  returned for \<open>w\<close>, for the derived singular of \<open>w\<close>, and for every token whose derived
  singular is \<open>w\<close>. The rule derives cooky from cookies, so cookies and cookie are not
  such a pair.
\<close>

theorem lookup_union:
  "InvertedIndex_search idx t = postings idx (to_lower t) \<union> postings idx (to_singular (to_lower t))
   \<and> (idx (to_lower t) = None \<and> idx (to_singular (to_lower t)) = None
        \<longrightarrow> InvertedIndex_search idx t = {})
   \<and> (i < length docs \<and> w \<in> set (words_of (snd (docs ! i))) \<and> w \<notin> set stopWords
        \<longrightarrow> i \<in> InvertedIndex_search (index (snd (ingest_all docs))) w
            \<and> i \<in> InvertedIndex_search (index (snd (ingest_all docs))) (to_singular w)
            \<and> (\<forall>t'. to_singular (to_lower t') = w
                  \<longrightarrow> i \<in> InvertedIndex_search (index (snd (ingest_all docs))) t'))"
proof (intro conjI impI allI)
  show "InvertedIndex_search idx t =
        postings idx (to_lower t) \<union> postings idx (to_singular (to_lower t))"
    by (rule InvertedIndex_search_postings)
  show "InvertedIndex_search idx t = {}"
    if "idx (to_lower t) = None \<and> idx (to_singular (to_lower t)) = None"
    using that by (simp add: InvertedIndex_search_postings postings_def)
next
  assume a: "i < length docs \<and> w \<in> set (words_of (snd (docs ! i))) \<and> w \<notin> set stopWords"
  then have lw: "to_lower w = w" by (auto simp: words_of_def intro: words_lower)
  from a have tok: "w \<in> set (tokenize (snd (docs ! i)))"
    "to_singular w \<in> set (tokenize (snd (docs ! i)))"
    by (auto intro: word_tokens)
  show "i \<in> InvertedIndex_search (index (snd (ingest_all docs))) w"
    using a tok by (simp add: search_ingested_iff lw)
  show "i \<in> InvertedIndex_search (index (snd (ingest_all docs))) (to_singular w)"
    using a tok by (simp add: search_ingested_iff to_singular_lower[OF lw])
  show "i \<in> InvertedIndex_search (index (snd (ingest_all docs))) t'"
    if "to_singular (to_lower t') = w" for t'
    using a tok that by (simp add: search_ingested_iff)
qed

text \<open>
  C9, as the code has it: for a word \<open>w\<close> of a document that is not a stopword,
  tokenization emits the derived singular after \<open>w\<close> when the two differ; the document's
  frequency table holds the derived singular as a key, with the number of words of the
  document that are not stopwords and are that form, plus the number of words that are not
  stopwords, differ from it and have it as their derived singular; and the derived singular
  and \<open>w\<close> are in the trie and have the document in their posting sets.
\<close>

theorem singular_token_stored:
  "i < length docs \<Longrightarrow> w \<in> set (words_of (snd (docs ! i))) \<Longrightarrow> w \<notin> set stopWords \<Longrightarrow>
     (to_singular w \<noteq> w \<longrightarrow> token_forms w = [w, to_singular w])
     \<and> wordFrequency (pages (snd (ingest_all docs)) ! i) (to_singular w) =
         Some (int (length (filter (\<lambda>v. v \<notin> set stopWords \<and> v = to_singular w)
                              (words_of (snd (docs ! i))))
                    + length (filter (\<lambda>v. v \<notin> set stopWords \<and> to_singular v = to_singular w
                                           \<and> v \<noteq> to_singular w)
                                (words_of (snd (docs ! i))))))
     \<and> Trie_search (fst (ingest_all docs)) (to_singular w)
     \<and> Trie_search (fst (ingest_all docs)) w
     \<and> i \<in> postings (index (snd (ingest_all docs))) (to_singular w)
     \<and> i \<in> postings (index (snd (ingest_all docs))) w"
proof -
  assume i: "i < length docs" and w: "w \<in> set (words_of (snd (docs ! i)))"
    and s: "w \<notin> set stopWords"
  from word_tokens[OF w s] have tok: "w \<in> set (tokenize (snd (docs ! i)))"
    "to_singular w \<in> set (tokenize (snd (docs ! i)))" by auto
  have 1: "to_singular w \<noteq> w \<longrightarrow> token_forms w = [w, to_singular w]"
    using s by (simp add: token_forms_def Let_def)
  have 2: "wordFrequency (pages (snd (ingest_all docs)) ! i) (to_singular w) =
         Some (int (length (filter (\<lambda>v. v \<notin> set stopWords \<and> v = to_singular w)
                              (words_of (snd (docs ! i))))
                    + length (filter (\<lambda>v. v \<notin> set stopWords \<and> to_singular v = to_singular w
                                           \<and> v \<noteq> to_singular w)
                                (words_of (snd (docs ! i))))))"
    using i tok(2)
    by (simp add: ingest_all_pages page_of_def token_count_def)
       (simp add: tokenize_words count_tokens)
  have 3: "Trie_search (fst (ingest_all docs)) (to_singular w)"
    "Trie_search (fst (ingest_all docs)) w"
    using i tok by (auto simp: ingest_all_trie intro!: bexI[of _ "docs ! i"])
  have 4: "i \<in> postings (index (snd (ingest_all docs))) (to_singular w)"
    "i \<in> postings (index (snd (ingest_all docs))) w"
    using i tok by (simp_all add: ingest_all_postings posting_list_def)
  from 1 2 3 4 show ?thesis by (intro conjI)
qed

text \<open>
  After ingestion alone the three structures agree: every key of a document's frequency table
  is in the trie and has the document in its posting set.
\<close>

lemma ingest_round_trip:
  assumes "i < length docs" and "wordFrequency (pages (snd (ingest_all docs)) ! i) k \<noteq> None"
  shows "Trie_search (fst (ingest_all docs)) k \<and> i \<in> postings (index (snd (ingest_all docs))) k"
proof -
  from assms have "k \<in> set (tokenize (snd (docs ! i)))"
    by (simp add: ingest_all_pages page_of_def token_count_def split: if_splits)
  with assms(1) show ?thesis
    by (auto simp: ingest_all_trie ingest_all_postings posting_list_def)
qed

section \<open>Properties of the word break\<close>

lemma join_space_Nil_iff: "\<forall>w\<in>set ws. w \<noteq> [] \<Longrightarrow> join_space ws = [] \<longleftrightarrow> ws = []"
  by (cases ws rule: join_space.cases) auto

lemma join_space_Cons:
  "\<forall>w\<in>set ws. w \<noteq> [] \<Longrightarrow> join_space (w # ws) = prepend_word w (join_space ws)"
  by (cases ws) (auto simp: prepend_word_def join_space_Nil_iff)

lemma segmentations_Nil: "segmentations trie [] = {[]}"
proof -
  have "ws = []" if "concat ws = []" "\<forall>w\<in>set ws. w \<noteq> []" for ws :: "string list"
    using that by (cases ws) auto
  then show ?thesis by (auto simp: segmentations_def)
qed

lemma rendered_Nil: "rendered trie [] = {[]}"
  by (simp add: rendered_def segmentations_Nil)

lemma segmentations_Cons:
  "w # ws \<in> segmentations trie s \<longleftrightarrow>
     w \<noteq> [] \<and> Trie_search trie w \<and> length w \<le> length s \<and> w = take (length w) s
     \<and> ws \<in> segmentations trie (drop (length w) s)"
proof -
  have "w @ drop (length w) s = s" if "w = take (length w) s"
    using that append_take_drop_id[of "length w" s] by simp
  then show ?thesis by (auto simp: segmentations_def)
qed

lemma rendered_step:
  assumes "s \<noteq> []"
  shows "rendered trie s =
    (\<Union>k\<in>{0..<length s}. if Trie_search trie (take (Suc k) s)
        then prepend_word (take (Suc k) s) ` rendered trie (drop (Suc k) s) else {})"
    (is "?L = ?R")
proof (rule set_eqI, rule iffI)
  fix x assume "x \<in> ?L"
  then obtain ws where ws: "ws \<in> segmentations trie s" and x: "x = join_space ws"
    by (auto simp: rendered_def)
  from ws assms obtain w ws' where c: "ws = w # ws'"
    by (cases ws) (auto simp: segmentations_def)
  from ws[unfolded c segmentations_Cons]
  have w: "w \<noteq> []" "Trie_search trie w" "length w \<le> length s" "w = take (length w) s"
    and r: "ws' \<in> segmentations trie (drop (length w) s)" by auto
  define k where "k = length w - 1"
  have k: "Suc k = length w" "k < length s"
    using w(1,3) by (cases w, simp_all add: k_def)+
  have ne: "\<forall>v\<in>set ws'. v \<noteq> []" using r by (auto simp: segmentations_def)
  have "x = prepend_word (take (Suc k) s) (join_space ws')"
    using x c join_space_Cons[OF ne] w k by simp
  moreover have "join_space ws' \<in> rendered trie (drop (Suc k) s)"
    using r k by (auto simp: rendered_def)
  moreover have "Trie_search trie (take (Suc k) s)" using w k by simp
  ultimately show "x \<in> ?R" using k by (auto intro!: bexI[of _ k])
next
  fix x assume "x \<in> ?R"
  then obtain k where k: "k < length s" and t: "Trie_search trie (take (Suc k) s)"
    and x: "x \<in> prepend_word (take (Suc k) s) ` rendered trie (drop (Suc k) s)"
    by (auto split: if_splits)
  from x obtain ws' where r: "ws' \<in> segmentations trie (drop (Suc k) s)"
    and x': "x = prepend_word (take (Suc k) s) (join_space ws')"
    by (auto simp: rendered_def)
  have ne: "\<forall>v\<in>set ws'. v \<noteq> []" using r by (auto simp: segmentations_def)
  have len: "length (take (Suc k) s) = Suc k" using k by simp
  have "take (Suc k) s # ws' \<in> segmentations trie s"
    unfolding segmentations_Cons using k t r assms by (simp add: len)
  moreover have "x = join_space (take (Suc k) s # ws')"
    using x' join_space_Cons[OF ne] by simp
  ultimately show "x \<in> ?L" by (auto simp: rendered_def)
qed

lemma loop_part_done: "\<not> k < length s \<Longrightarrow> loop_part trie s k = {}"
  by (simp add: loop_part_def)

lemma loop_part_step:
  "k < length s \<Longrightarrow> loop_part trie s k =
     (if Trie_search trie (take (Suc k) s)
        then prepend_word (take (Suc k) s) ` rendered trie (drop (Suc k) s) else {})
     \<union> loop_part trie s (Suc k)"
proof -
  assume "k < length s"
  then have "{k..<length s} = insert k {Suc k..<length s}" by auto
  then show ?thesis by (simp add: loop_part_def)
qed

text \<open>
  The helper and its loop keep a sound memo sound, and return the rendered segmentations:
  by the induction rule of the two functions.
\<close>

lemma helper_loop_correct:
  "memo_ok trie memo \<Longrightarrow>
     set (fst (unbounded_helper s trie memo)) = rendered trie s
     \<and> memo_ok trie (snd (unbounded_helper s trie memo))"
  "memo_ok trie memo \<Longrightarrow>
     set (fst (unbounded_loop k s trie memo results)) = set results \<union> loop_part trie s k
     \<and> memo_ok trie (snd (unbounded_loop k s trie memo results))"
proof (induction s trie memo and k s trie memo results
       rule: unbounded_helper_unbounded_loop.induct)
  case (1 s trie memo)
  show ?case
  proof (cases "memo s")
    case (Some r)
    with "1.prems" show ?thesis by (simp add: memo_ok_def unbounded_helper.simps)
  next
    case None
    show ?thesis
    proof (cases "s = []")
      case True
      with None "1.prems" show ?thesis by (simp add: rendered_Nil unbounded_helper.simps)
    next
      case False
      from "1.IH"[OF None False "1.prems"]
      have a: "set (fst (unbounded_loop 0 s trie memo [])) = loop_part trie s 0"
        and b: "memo_ok trie (snd (unbounded_loop 0 s trie memo []))" by auto
      have c: "loop_part trie s 0 = rendered trie s"
        using rendered_step[OF False] by (simp add: loop_part_def)
      show ?thesis using None False a b c
        by (auto simp: memo_ok_def unbounded_helper.simps[of s] split: prod.splits)
    qed
  qed
next
  case (2 k s trie memo results)
  show ?case
  proof (cases "k < length s")
    case False
    with "2.prems" show ?thesis by (simp add: loop_part_done unbounded_loop.simps[of k])
  next
    case k: True
    show ?thesis
    proof (cases "Trie_search trie (take (Suc k) s)")
      case False
      from "2.IH"(3)[OF k refl False "2.prems"] k False show ?thesis
        by (simp add: loop_part_step unbounded_loop.simps[of k])
    next
      case True
      obtain subs memo' where h: "unbounded_helper (drop (Suc k) s) trie memo = (subs, memo')"
        by (cases "unbounded_helper (drop (Suc k) s) trie memo")
      from "2.IH"(1)[OF k refl True "2.prems"] h
      have s: "set subs = rendered trie (drop (Suc k) s)" and m: "memo_ok trie memo'" by auto
      from "2.IH"(2)[OF k refl True h[symmetric] m] k True h s show ?thesis
        by (simp add: loop_part_step unbounded_loop.simps[of k] prepend_word_def[abs_def]
              Un_assoc)
    qed
  qed
qed

lemma unbounded_break_set: "set (unbounded_break s trie) = rendered trie s"
  using helper_loop_correct(1)[of trie Map.empty s] by (simp add: unbounded_break_def memo_ok_def)

lemma unbounded_break_Nil: "unbounded_break [] trie = [[]]"
  by (simp add: unbounded_break_def unbounded_helper.simps)

subsection \<open>the bound on the nesting\<close>

text \<open>
  A call either raises \<^verbatim>\<open>RecursionError\<close> or returns what the recursion with no bound
  returns: the bound changes no result, it only cuts the computation.
\<close>

lemma bounded_cases:
  "word_break_helper frames s trie memo = Inl RecursionError
   \<or> word_break_helper frames s trie memo = Inr (unbounded_helper s trie memo)"
  "word_break_loop frames k s trie memo results = Inl RecursionError
   \<or> word_break_loop frames k s trie memo results
       = Inr (unbounded_loop k s trie memo results)"
proof (induction frames s trie memo and frames k s trie memo results
       rule: word_break_helper_word_break_loop.induct)
  case (1 frames s trie memo)
  show ?case
  proof (cases "frames = 0 \<or> memo s \<noteq> None \<or> s = []")
    case True
    then show ?thesis
      by (auto simp: word_break_helper.simps[of frames s] unbounded_helper.simps[of s]
               split: option.splits)
  next
    case False
    with 1 have "word_break_loop (frames - 1) 0 s trie memo [] = Inl RecursionError
      \<or> word_break_loop (frames - 1) 0 s trie memo [] = Inr (unbounded_loop 0 s trie memo [])"
      by simp
    with False show ?thesis
      by (auto simp: word_break_helper.simps[of frames s] unbounded_helper.simps[of s]
               split: prod.splits)
  qed
next
  case (2 frames k s trie memo results)
  show ?case
  proof (cases "k < length s \<and> frames \<noteq> 0")
    case False
    then show ?thesis
      by (auto simp: word_break_loop.simps[of frames k] unbounded_loop.simps[of k])
  next
    case True
    show ?thesis
    proof (cases "Trie_search trie (take (Suc k) s)")
      case False
      with True 2(3) show ?thesis
        by (simp add: word_break_loop.simps[of frames k] unbounded_loop.simps[of k])
    next
      case found: True
      from True found 2(1)
      have "word_break_helper frames (drop (Suc k) s) trie memo = Inl RecursionError
         \<or> word_break_helper frames (drop (Suc k) s) trie memo
             = Inr (unbounded_helper (drop (Suc k) s) trie memo)" by simp
      then show ?thesis
      proof
        assume "word_break_helper frames (drop (Suc k) s) trie memo = Inl RecursionError"
        with True found show ?thesis by (simp add: word_break_loop.simps[of frames k])
      next
        assume h: "word_break_helper frames (drop (Suc k) s) trie memo
             = Inr (unbounded_helper (drop (Suc k) s) trie memo)"
        obtain subs memo' where u: "unbounded_helper (drop (Suc k) s) trie memo = (subs, memo')"
          by (cases "unbounded_helper (drop (Suc k) s) trie memo")
        from 2(2)[OF _ refl _ found h[unfolded u] refl] True
        show ?thesis
          by (simp add: word_break_loop.simps[of frames k] unbounded_loop.simps[of k]
                found h u)
      qed
    qed
  qed
qed

text \<open>
  The helper on \<open>s\<close> nests at most one call of itself for every character of \<open>s\<close>, one
  more on the empty rest, and below that one call of \<^verbatim>\<open>trie.search\<close>: with more frames
  than \<open>s\<close> has characters it returns.
\<close>

lemma bounded_returns:
  "length s < frames \<Longrightarrow>
     word_break_helper frames s trie memo = Inr (unbounded_helper s trie memo)"
  "length s \<le> frames \<Longrightarrow>
     word_break_loop frames k s trie memo results
       = Inr (unbounded_loop k s trie memo results)"
proof (induction frames s trie memo and frames k s trie memo results
       rule: word_break_helper_word_break_loop.induct)
  case (1 frames s trie memo)
  show ?case
  proof (cases "memo s \<noteq> None \<or> s = []")
    case True
    with "1.prems" show ?thesis
      by (auto simp: word_break_helper.simps[of frames s] unbounded_helper.simps[of s]
               split: option.splits)
  next
    case False
    with 1 have "word_break_loop (frames - 1) 0 s trie memo []
        = Inr (unbounded_loop 0 s trie memo [])"
      by simp
    with False "1.prems" show ?thesis
      by (auto simp: word_break_helper.simps[of frames s] unbounded_helper.simps[of s]
               split: prod.splits)
  qed
next
  case (2 frames k s trie memo results)
  show ?case
  proof (cases "k < length s")
    case False
    then show ?thesis
      by (simp add: word_break_loop.simps[of frames k] unbounded_loop.simps[of k])
  next
    case True
    with "2.prems" have f: "frames \<noteq> 0" by auto
    show ?thesis
    proof (cases "Trie_search trie (take (Suc k) s)")
      case False
      with True f 2(3) "2.prems" show ?thesis
        by (simp add: word_break_loop.simps[of frames k] unbounded_loop.simps[of k])
    next
      case found: True
      from True "2.prems" have "length (drop (Suc k) s) < frames" by simp
      with True found f 2(1)
      have h: "word_break_helper frames (drop (Suc k) s) trie memo
             = Inr (unbounded_helper (drop (Suc k) s) trie memo)" by simp
      obtain subs memo' where u: "unbounded_helper (drop (Suc k) s) trie memo = (subs, memo')"
        by (cases "unbounded_helper (drop (Suc k) s) trie memo")
      from 2(2)[OF True refl f found h[unfolded u] refl "2.prems"] True f
      show ?thesis
        by (simp add: word_break_loop.simps[of frames k] unbounded_loop.simps[of k]
              found h u)
    qed
  qed
qed

lemma word_break_cases:
  "word_break frames s trie = Inl RecursionError
   \<or> word_break frames s trie = Inr (unbounded_break s trie)"
  using bounded_cases(1)[of "frames - 1" s trie Map.empty]
  by (auto simp: word_break_def unbounded_break_def)

lemma word_break_returns:
  "length s + 2 \<le> frames \<Longrightarrow> word_break frames s trie = Inr (unbounded_break s trie)"
  using bounded_returns(1)[of s "frames - 1" trie Map.empty]
  by (simp add: word_break_def unbounded_break_def)

lemma word_break_Nil: "2 \<le> frames \<Longrightarrow> word_break frames [] trie = Inr [[]]"
  by (simp add: word_break_returns unbounded_break_Nil)

lemma word_break_searchengine:
  assumes "\<forall>w. Trie_search trie w \<longleftrightarrow> w \<in> {''search'', ''engine'', ''searches''}"
    and "4 \<le> frames"
  shows "word_break frames ''searchengine'' trie = Inr [''search engine'']"
proof -
  define n where "n = frames - 4"
  with assms(2) have n: "frames = Suc (Suc (Suc (Suc n)))" by simp
  show ?thesis
    unfolding n
    by (simp add: word_break_def assms(1) Let_def word_break_helper.simps word_break_loop.simps)
qed

lemma word_break_searchengine_shallow:
  assumes "\<forall>w. Trie_search trie w \<longleftrightarrow> w \<in> {''search'', ''engine'', ''searches''}"
    and "frames \<le> 3"
  shows "word_break frames ''searchengine'' trie = Inl RecursionError"
proof -
  from assms(2) have "frames = 0 \<or> frames = Suc 0 \<or> frames = Suc (Suc 0) \<or> frames = Suc (Suc (Suc 0))"
    by arith
  then show ?thesis
    by (elim disjE) 
      (simp_all add: word_break_def assms(1) Let_def word_break_helper.simps word_break_loop.simps)
qed

text \<open>
  The nesting is reached: when the trie knows the one-character word \<open>a\<close>, the helper on a
  string that starts with \<open>n\<close> times \<open>a\<close> calls itself on each of the \<open>n\<close> rests before any
  call returns, and raises when it has no more than \<open>n\<close> frames.
\<close>

lemma deep_recursion:
  assumes "Trie_search trie [a]"
  shows "frames \<le> n \<Longrightarrow>
    word_break_helper frames (replicate n a @ rest) trie Map.empty = Inl RecursionError"
proof (induction frames arbitrary: n)
  case 0
  show ?case by (simp add: word_break_helper.simps)
next
  case (Suc f)
  then obtain m where n: "n = Suc m" and m: "f \<le> m" by (cases n) auto
  have "word_break_helper f (replicate m a @ rest) trie Map.empty = Inl RecursionError"
    using m by (rule Suc.IH)
  then show ?case
    unfolding n
    by (simp add: word_break_helper.simps[of "Suc f"] word_break_loop.simps[of f 0] assms
          Let_def)
qed

lemma word_break_deep:
  assumes "Trie_search trie [a]" and "frames \<le> Suc n"
  shows "word_break frames (replicate n a @ rest) trie = Inl RecursionError"
  using assms(2) by (simp add: word_break_def deep_recursion[OF assms(1)])

lemma no_segmentation:
  assumes "\<forall>w. Trie_search trie w \<longrightarrow> set w \<subseteq> A" and "\<not> set s \<subseteq> A"
  shows "segmentations trie s = {}"
proof -
  have "False" if "ws \<in> segmentations trie s" for ws
  proof -
    from that have c: "concat ws = s" and k: "\<forall>w\<in>set ws. Trie_search trie w"
      by (simp_all add: segmentations_def)
    from k assms(1) have "set (concat ws) \<subseteq> A" by auto
    with c assms(2) show False by simp
  qed
  then show ?thesis by (intro equals0I)
qed

lemma Trie_search_a: "Trie_search (Trie_insert ''a'' Trie_empty) w \<longleftrightarrow> w = ''a''"
  by (simp only: Trie_search_insert Trie_empty_def Trie_search_empty) simp

subsection \<open>the segmentations\<close>

text \<open>
  C7: the word break, called with \<open>frames\<close> nested calls still allowed, either raises
  RecursionError or returns the segmentations of its input, each rendered with spaces: the
  strings it lists are exactly the renderings of the lists of non-empty words known to the
  trie that concatenate to the input. With two frames more than the input has characters it
  returns. With two frames the empty input has the one empty segmentation; with enough
  frames an input with no segmentation gives the empty list; and with the vocabulary search,
  engine, searches and four frames the input searchengine gives the one segmentation
  search engine.
\<close>

theorem word_break_segmentations:
  "(word_break frames s trie = Inl RecursionError
    \<or> (\<exists>r. word_break frames s trie = Inr r \<and> set r = join_space ` segmentations trie s))
   \<and> (length s + 2 \<le> frames \<longrightarrow>
        (\<exists>r. word_break frames s trie = Inr r \<and> set r = join_space ` segmentations trie s))
   \<and> (2 \<le> frames \<longrightarrow> word_break frames [] trie = Inr [[]])
   \<and> (length s + 2 \<le> frames \<and> segmentations trie s = {}
        \<longrightarrow> word_break frames s trie = Inr [])
   \<and> ((\<forall>w. Trie_search trie w \<longleftrightarrow> w \<in> {''search'', ''engine'', ''searches''})
        \<and> 4 \<le> frames
        \<longrightarrow> word_break frames ''searchengine'' trie = Inr [''search engine''])"
proof (intro conjI impI)
  have u: "set (unbounded_break s trie) = join_space ` segmentations trie s"
    by (simp add: unbounded_break_set rendered_def)
  from word_break_cases[of frames s trie] u
  show "word_break frames s trie = Inl RecursionError
    \<or> (\<exists>r. word_break frames s trie = Inr r \<and> set r = join_space ` segmentations trie s)"
    by (elim disjE) simp_all
  show "\<exists>r. word_break frames s trie = Inr r \<and> set r = join_space ` segmentations trie s"
    if "length s + 2 \<le> frames"
    using word_break_returns[OF that, of trie] u by simp
  show "word_break frames [] trie = Inr [[]]" if "2 \<le> frames"
    using that by (rule word_break_Nil)
  show "word_break frames s trie = Inr []"
    if "length s + 2 \<le> frames \<and> segmentations trie s = {}"
    using that word_break_returns[of s frames trie] u by simp
  show "word_break frames ''searchengine'' trie = Inr [''search engine'']"
    if "(\<forall>w. Trie_search trie w \<longleftrightarrow> w \<in> {''search'', ''engine'', ''searches''})
        \<and> 4 \<le> frames"
    by (rule word_break_searchengine[OF that[THEN conjunct1] that[THEN conjunct2]])
qed

theorem word_break_segmentations_witness:
  "word_break 1000 ''searchengine''
     (Trie_insert ''searches'' (Trie_insert ''engine'' (Trie_insert ''search'' Trie_empty)))
     = Inr [''search engine'']
   \<and> word_break 1000 ''xyz''
       (Trie_insert ''searches'' (Trie_insert ''engine'' (Trie_insert ''search'' Trie_empty)))
     = Inr []
   \<and> word_break 1000 ''''
       (Trie_insert ''searches'' (Trie_insert ''engine'' (Trie_insert ''search'' Trie_empty)))
     = Inr ['''']"
proof -
  define t where
    "t = Trie_insert ''searches'' (Trie_insert ''engine'' (Trie_insert ''search'' Trie_empty))"
  have v: "\<forall>w. Trie_search t w \<longleftrightarrow> w \<in> {''search'', ''engine'', ''searches''}"
    unfolding t_def by (simp only: Trie_search_insert Trie_empty_def Trie_search_empty) auto
  have x: "segmentations t ''xyz'' = {}"
  proof (rule no_segmentation[where A = "set ''searchengine''"])
    show "\<forall>w. Trie_search t w \<longrightarrow> set w \<subseteq> set ''searchengine''"
      by (auto simp: v)
    show "\<not> set ''xyz'' \<subseteq> set ''searchengine''" by simp
  qed
  have f: "(4::nat) \<le> 1000" "(2::nat) \<le> 1000" "length ''xyz'' + 2 \<le> 1000" by simp_all
  note th = word_break_segmentations[of 1000 "''searchengine''" t]
  have 1: "word_break 1000 ''searchengine'' t = Inr [''search engine'']"
    by (rule mp[OF th[THEN conjunct2, THEN conjunct2, THEN conjunct2, THEN conjunct2]
          conjI[OF v f(1)]])
  have 2: "word_break 1000 ''xyz'' t = Inr []"
    by (rule mp[OF word_break_segmentations[of 1000 "''xyz''" t,
          THEN conjunct2, THEN conjunct2, THEN conjunct2, THEN conjunct1] conjI[OF f(3) x]])
  have 3: "word_break 1000 '''' t = Inr ['''']"
    by (rule mp[OF th[THEN conjunct2, THEN conjunct2, THEN conjunct1] f(2)])
  from 1 2 3 show ?thesis unfolding t_def by (intro conjI)
qed

text \<open>
  C7: with the trie that knows the word a, the input of a thousand times a and then x has no
  segmentation, and the word break called with a thousand frames, which is no less than any
  caller has under the default recursion limit of 1000, raises RecursionError: it does not
  give the empty list.
\<close>

theorem word_break_depth_counterexample:
  "segmentations (Trie_insert ''a'' Trie_empty) (replicate 1000 CHR ''a'' @ ''x'') = {}
   \<and> word_break 1000 (replicate 1000 CHR ''a'' @ ''x'') (Trie_insert ''a'' Trie_empty)
       = Inl RecursionError"
proof
  show "segmentations (Trie_insert ''a'' Trie_empty) (replicate 1000 CHR ''a'' @ ''x'') = {}"
    by (rule no_segmentation[where A = "{CHR ''a''}"]) (simp_all add: Trie_search_a)
  show "word_break 1000 (replicate 1000 CHR ''a'' @ ''x'') (Trie_insert ''a'' Trie_empty)
       = Inl RecursionError"
    by (rule word_break_deep) (simp_all add: Trie_search_a)
qed

subsection \<open>termination\<close>

lemma drop_Suc_neq: "k < length s \<Longrightarrow> drop (Suc k) s \<noteq> s"
proof
  assume "k < length s" and "drop (Suc k) s = s"
  from this(2) have "length (drop (Suc k) s) = length s" by simp
  with \<open>k < length s\<close> show False by simp
qed

lemma call_suffix:
  assumes "word_break_helper_word_break_loop_rel x y"
  shows "suffix (call_string x) (call_string y)
         \<and> (isl x \<longrightarrow> strict_suffix (call_string x) (call_string y))"
  using assms
  by (cases rule: word_break_helper_word_break_loop_rel.cases)
     (simp_all add: call_string_def strict_suffix_def suffix_drop drop_Suc_neq)

lemma calls_suffix:
  assumes "tranclp word_break_helper_word_break_loop_rel x y"
  shows "suffix (call_string x) (call_string y)
         \<and> (isl x \<longrightarrow> strict_suffix (call_string x) (call_string y))"
  using assms
proof (induction rule: tranclp_induct)
  case (base y)
  then show ?case by (rule call_suffix)
next
  case (step y z)
  from call_suffix[OF step.hyps(2)] have "suffix (call_string y) (call_string z)" by simp
  with step.IH show ?case
    by (auto simp: strict_suffix_def dest: suffix_order.trans suffix_order.antisym)
qed

lemma word_break_dom: "word_break_helper_word_break_loop_dom x"
proof -
  have "All word_break_helper_word_break_loop_dom"
    by (relation "measures
        [\<lambda>x. case x of Inl (_, s, _, _) \<Rightarrow> length s | Inr (_, _, s, _, _, _) \<Rightarrow> length s,
         \<lambda>x. case x of Inl _ \<Rightarrow> 1 | Inr _ \<Rightarrow> 0,
         \<lambda>x. case x of Inl _ \<Rightarrow> 0 | Inr (_, k, s, _, _, _) \<Rightarrow> length s - k]") auto
  then show ?thesis by simp
qed

text \<open>
  C10: the word break terminates on every input, by raising RecursionError or by returning
  a list. Every call of the helper and of its loop lies in the accessible part of the call
  relation of the two functions, so the recursion is well-founded; and every call that a
  call of the helper on \<open>s\<close> leads to, through any number of calls, has a suffix of \<open>s\<close> as
  its string, a strict suffix when it is a call of the helper. With two frames more than the
  input has characters the word break returns a list, which is finite.
\<close>

theorem word_break_terminates:
  "word_break_helper_word_break_loop_dom (Inl (frames, s, trie, memo))
   \<and> word_break_helper_word_break_loop_dom (Inr (frames, k, s, trie, memo, results))
   \<and> (\<forall>x. tranclp word_break_helper_word_break_loop_rel x (Inl (frames, s, trie, memo))
        \<longrightarrow> suffix (call_string x) s \<and> (isl x \<longrightarrow> strict_suffix (call_string x) s))
   \<and> (word_break frames s trie = Inl RecursionError \<or> (\<exists>r. word_break frames s trie = Inr r))
   \<and> (length s + 2 \<le> frames \<longrightarrow> (\<exists>r. word_break frames s trie = Inr r))"
proof (intro conjI allI impI)
  show "word_break_helper_word_break_loop_dom (Inl (frames, s, trie, memo))"
    by (rule word_break_dom)
  show "word_break_helper_word_break_loop_dom (Inr (frames, k, s, trie, memo, results))"
    by (rule word_break_dom)
  show "suffix (call_string x) s"
    if "tranclp word_break_helper_word_break_loop_rel x (Inl (frames, s, trie, memo))" for x
    using calls_suffix[OF that] by (simp add: call_string_def)
  show "strict_suffix (call_string x) s"
    if "tranclp word_break_helper_word_break_loop_rel x (Inl (frames, s, trie, memo))"
      and "isl x" for x
    using calls_suffix[OF that(1)] that(2) by (simp add: call_string_def)
  from word_break_cases[of frames s trie]
  show "word_break frames s trie = Inl RecursionError \<or> (\<exists>r. word_break frames s trie = Inr r)"
    by (elim disjE) simp_all
  show "\<exists>r. word_break frames s trie = Inr r" if "length s + 2 \<le> frames"
    using word_break_returns[OF that, of trie] by simp
qed

theorem word_break_terminates_witness:
  "strict_suffix ''b'' ''ab''
   \<and> word_break_helper_word_break_loop_dom
       (Inl (1000, ''ab'', Trie_insert ''a'' Trie_empty, Map.empty))
   \<and> (\<exists>r. word_break 1000 ''ab'' (Trie_insert ''a'' Trie_empty) = Inr r)"
proof -
  define t where "t = Trie_insert ''a'' Trie_empty"
  have a: "Trie_search t ''a''" unfolding t_def by (simp only: Trie_search_insert) simp
  have 1: "word_break_helper_word_break_loop_rel
             (Inr (1000 - 1, 0, ''ab'', t, Map.empty, [])) (Inl (1000, ''ab'', t, Map.empty))"
    by (rule word_break_helper_word_break_loop_rel.intros) simp_all
  have 2: "word_break_helper_word_break_loop_rel
             (Inl (1000 - 1, drop (Suc 0) ''ab'', t, Map.empty))
             (Inr (1000 - 1, 0, ''ab'', t, Map.empty, []))"
    by (rule word_break_helper_word_break_loop_rel.intros(2)[where x = "take (Suc 0) ''ab''"])
       (simp_all add: a)
  from 2 1 have c: "tranclp word_break_helper_word_break_loop_rel
             (Inl (1000 - 1, drop (Suc 0) ''ab'', t, Map.empty)) (Inl (1000, ''ab'', t, Map.empty))"
    by (rule tranclp.intros(2)[OF tranclp.intros(1)])
  note th = word_break_terminates[of 1000 "''ab''" t Map.empty]
  from th[THEN conjunct2, THEN conjunct2, THEN conjunct1, rule_format, OF c]
  have "strict_suffix ''b'' ''ab''" by (simp add: call_string_def)
  moreover have "word_break_helper_word_break_loop_dom (Inl (1000, ''ab'', t, Map.empty))"
    by (rule th[THEN conjunct1])
  moreover have "\<exists>r. word_break 1000 ''ab'' t = Inr r"
    by (rule mp[OF th[THEN conjunct2, THEN conjunct2, THEN conjunct2, THEN conjunct2]]) simp
  ultimately show ?thesis unfolding t_def by (intro conjI)
qed

text \<open>
  C10: with the trie that knows the word a, the word break on a thousand times a, called
  with a thousand frames, raises RecursionError and returns no list.
\<close>

theorem word_break_raises_counterexample:
  "word_break 1000 (replicate 1000 CHR ''a'') (Trie_insert ''a'' Trie_empty)
     = Inl RecursionError"
  using word_break_deep[of "Trie_insert ''a'' Trie_empty" "CHR ''a''" 1000 1000 "[]"]
  by (simp add: Trie_search_a)

section \<open>Worked inputs\<close>

text \<open>Facts for evaluating a query on given documents.\<close>

lemmas eval_search = SearchEngine_search_def search_rows_def search_visit_def dd_get_def
  dd_add_def dd_read_def al_get_def sort_key_of_def has_exact_match_def less_eq_prod_def
  ingest_all_pages page_of_def token_count_def

lemma sorted_search_ingested:
  "set_iteration p (InvertedIndex_search (index (snd (ingest_all docs))) t) =
     sort_key p (filter (\<lambda>i. to_lower t \<in> set (tokenize (snd (docs ! i)))
                 \<or> to_singular (to_lower t) \<in> set (tokenize (snd (docs ! i))))
       [0..<length docs])"
proof -
  let ?l = "filter (\<lambda>i. to_lower t \<in> set (tokenize (snd (docs ! i)))
                 \<or> to_singular (to_lower t) \<in> set (tokenize (snd (docs ! i))))
       [0..<length docs]"
  have "InvertedIndex_search (index (snd (ingest_all docs))) t = set ?l"
    by (auto simp: InvertedIndex_search_postings ingest_all_postings posting_list_def)
  moreover have "sorted ?l" by (rule sorted_wrt_filter) simp
  moreover have "distinct ?l" by simp
  ultimately show ?thesis
    by (simp only: set_iteration_def sorted_list_of_set.idem_if_sorted_distinct)
qed

lemmas eval_found = found_of_def matchCount_def frequencySum_def isExactMatch_def dd_val_def
  search_ingested_iff ingest_all_pages page_of_def token_count_def has_exact_match_def

lemmas eval_first = first_matched_def visits_def first_occ_def sorted_search_ingested
  ascending_def

lemma rank_key_found:
  "rank_key e q d = (- of_bool (snd (snd (snd (found_of e q d)))),
                     - fst (snd (found_of e q d)), - fst (snd (snd (found_of e q d))))"
  by (simp add: rank_key_def found_of_def)

lemma tokenize_cat: "tokenize ''cat'' = [''cat'']"
  by (simp add: eval_text)

lemma tokenize_cats: "tokenize ''cats'' = [''cats'', ''cat'']"
  by (simp add: eval_text)

lemma lower_singular_cat:
  "to_lower ''cats'' = ''cats''" "to_lower ''cat'' = ''cat''"
  "to_singular ''cats'' = ''cat''" "to_singular ''cat'' = ''cat''"
  by (simp_all add: eval_text)

lemma tokenize_Main:
  "tokenize ''This is an example page with a search engine.'' =
     [''this'', ''thi'', ''example'', ''page'', ''search'', ''engine'']"
  "tokenize ''Another example page with algorithms and data.'' =
     [''another'', ''example'', ''page'', ''algorithms'', ''algorithm'', ''data'']"
  "tokenize ''The news are spreading quickly. Search engines use algorithms.'' =
     [''news'', ''new'', ''are'', ''spreading'', ''quickly'', ''search'', ''engines'', ''engine'',
      ''use'', ''algorithms'', ''algorithm'']"
  "tokenize ''Exact match test: example search'' =
     [''exact'', ''match'', ''test'', ''example'', ''search'']"
  by (simp_all add: eval_text)

lemma tokenize_queries:
  "tokenize ''algorithm'' = [''algorithm'']"
  "tokenize ''is an'' = []"
  "tokenize ''apple banana'' = [''apple'', ''banana'']"
  "tokenize ''apple'' = [''apple'']"
  "tokenize ''banana'' = [''banana'']"
  by (simp_all add: eval_text)

lemma lower_singular_queries:
  "to_lower ''algorithm'' = ''algorithm''" "to_singular ''algorithm'' = ''algorithm''"
  "to_lower ''apple'' = ''apple''" "to_singular ''apple'' = ''apple''"
  "to_lower ''banana'' = ''banana''" "to_singular ''banana'' = ''banana''"
  by (simp_all add: eval_text)

lemma tokenize_cookies:
  "tokenize ''cookies'' = [''cookies'', ''cooky'']"
  "tokenize ''cookie'' = [''cookie'']"
  "to_lower ''cookies'' = ''cookies''" "to_lower ''cookie'' = ''cookie''"
  "to_singular ''cookies'' = ''cooky''" "to_singular ''cookie'' = ''cookie''"
  by (simp_all add: eval_text)

lemma tokenize_search_engine:
  "tokenize ''search engine'' = [''search'', ''engine'']"
  "to_lower ''search'' = ''search''" "to_singular ''search'' = ''search''"
  "to_lower ''engine'' = ''engine''" "to_singular ''engine'' = ''engine''"
  by (simp_all add: eval_text)

text \<open>
  C1: a query may change a page's frequency table. One document with the content cat is
  ingested; the query cats has the tokens cats and cat, the lookup of cats finds the document
  through the singular cat, and reading the count of cats in the document's table stores the
  key cats with the count 0, which the table did not hold before.
\<close>

theorem search_stores_zero_key:
  "wordFrequency (pages (snd (ingest_all [(''https://example.com'', ''cat'')])) ! 0) ''cats'' = None
   \<and> (\<exists>e' rows. SearchEngine_search place (snd (ingest_all [(''https://example.com'', ''cat'')])) ''cats''
          = Inr (e', rows)
        \<and> wordFrequency (pages e' ! 0) ''cats'' = Some 0)"
  by (simp add: eval_search sorted_search_ingested tokenize_cat tokenize_cats lower_singular_cat)

text \<open>
  C6: after that query the document's frequency table holds the key cats, which the trie does
  not contain and whose posting set does not hold the document.
\<close>

theorem query_key_outside_trie_and_index:
  "\<exists>e' rows. SearchEngine_search place (snd (ingest_all [(''https://example.com'', ''cat'')])) ''cats''
          = Inr (e', rows)
     \<and> wordFrequency (pages e' ! 0) ''cats'' \<noteq> None
     \<and> \<not> Trie_search (fst (ingest_all [(''https://example.com'', ''cat'')])) ''cats''
     \<and> 0 \<notin> postings (index e') ''cats''"
  by (simp add: eval_search sorted_search_ingested tokenize_cat tokenize_cats lower_singular_cat
        ingest_all_trie ingest_all_postings posting_list_def)

text \<open>
  C4 on the documents of the main program: the query is an is made of stopwords and is a
  substring of the first document's normalized content; its result is empty.
\<close>

theorem stopword_query_witness:
  "has_exact_match ''This is an example page with a search engine.'' ''is an''
   \<and> tokenize ''is an'' = []
   \<and> SearchEngine_search ascending (snd (ingest_all Main_docs)) ''is an'' = Inr (snd (ingest_all Main_docs), [])"
proof -
  have "has_exact_match ''This is an example page with a search engine.'' ''is an''"
    by (simp add: has_exact_match_def eval_text)
  moreover have t: "tokenize ''is an'' = []" by (rule tokenize_queries)
  moreover have "SearchEngine_search ascending (snd (ingest_all Main_docs)) ''is an'' =
                 Inr (snd (ingest_all Main_docs), [])"
    by (rule mp[OF search_no_match_empty]) (simp add: t)
  ultimately show ?thesis by (intro conjI)
qed

text \<open>
  Two documents that tie on the whole key. The query apple banana matches document 1 with
  its first token and document 0 with its second; each result set has one element, so the
  lines are the same for every iteration order.
\<close>

lemma apple_banana_rows:
  "search_rows place (snd (ingest_all [(''https://a.example'', ''banana''),
                                  (''https://b.example'', ''apple'')])) ''apple banana''
     = Inr [(1, 1, 1, False), (0, 1, 1, False)]"
proof -
  define E where "E = snd (ingest_all [(''https://a.example'', ''banana''),
                                  (''https://b.example'', ''apple'')])"
  have fm: "first_matched place E ''apple banana'' = [Suc 0, 0]"
    unfolding E_def by (simp add: eval_first tokenize_queries lower_singular_queries)
  have f: "found_of E ''apple banana'' (Suc 0) = (Suc 0, 1, 1, False)"
    "found_of E ''apple banana'' 0 = (0, 1, 1, False)"
    unfolding E_def
    by (simp add: eval_found tokenize_queries lower_singular_queries, simp add: eval_text)+
  have ok: "engine_ok E" unfolding E_def by (rule ingest_all_engine_ok)
  show ?thesis
    unfolding E_def[symmetric]
    by (simp add: search_rows_closed_form[OF ok] fm f rank_key_found less_eq_prod_def)
qed

text \<open>
  C3: the two documents tie on the whole key and document 1 is listed before document 0.
\<close>

theorem tie_order_counterexample:
  "search_rows ascending (snd (ingest_all [(''https://a.example'', ''banana''),
                                  (''https://b.example'', ''apple'')])) ''apple banana''
     = Inr [(1, 1, 1, False), (0, 1, 1, False)]"
  by (rule apple_banana_rows)

theorem search_ranking_witness:
  "engine_ok (snd (ingest_all Main_docs))
   \<and> (\<exists>e'. SearchEngine_search ascending (snd (ingest_all Main_docs)) ''search engine''
          = Inr (e', [(0, 2, 2, True), (2, 2, 2, True), (3, 1, 1, False)]))
   \<and> {d. 0 < matchCount (snd (ingest_all Main_docs)) ''search engine'' d} = {0, 2, 3}"
proof -
  define E where "E = snd (ingest_all Main_docs)"
  define Q where "Q = ''search engine''"
  have ok: "engine_ok E" unfolding E_def by (rule ingest_all_engine_ok)
  have fm: "first_matched ascending E Q = [0, 2, 3]"
    unfolding E_def Q_def
    by (simp add: eval_first
          tokenize_search_engine tokenize_Main Main_docs_def)
  have f0: "found_of E Q 0 = (0, 2, 2, True)"
    unfolding E_def Q_def
    by (simp add: found_of_def matchCount_def frequencySum_def isExactMatch_def dd_val_def
          search_ingested_iff tokenize_search_engine tokenize_Main Main_docs_def
          ingest_all_pages page_of_def token_count_def has_exact_match_def, simp add: eval_text)
  have f2: "found_of E Q 2 = (2, 2, 2, True)"
    unfolding E_def Q_def
    by (simp add: found_of_def matchCount_def frequencySum_def isExactMatch_def dd_val_def
          search_ingested_iff tokenize_search_engine tokenize_Main Main_docs_def
          ingest_all_pages page_of_def token_count_def has_exact_match_def, simp add: eval_text)
  have f3: "found_of E Q 3 = (3, 1, 1, False)"
    unfolding E_def Q_def
    by (simp add: found_of_def matchCount_def frequencySum_def isExactMatch_def dd_val_def
          search_ingested_iff tokenize_search_engine tokenize_Main Main_docs_def
          ingest_all_pages page_of_def token_count_def has_exact_match_def, simp add: eval_text)
  have rk: "rank_key E Q d = (- of_bool (snd (snd (snd (found_of E Q d)))),
                              - fst (snd (found_of E Q d)), - fst (snd (snd (found_of E Q d))))" for d
    by (simp add: rank_key_def found_of_def)
  have so: "sort_key (rank_key E Q) [0, 2, 3] = [0, 2, 3]"
    by (simp add: rk f0 f2 f3 less_eq_prod_def)
  from search_ranking[OF ok, of ascending Q] obtain e' ids where
    s: "SearchEngine_search ascending E Q = Inr (e', map (found_of E Q) ids)"
    and i: "ids = sort_key (rank_key E Q) (first_matched ascending E Q)"
    and m: "set ids = {d. 0 < matchCount E Q d}"
    by blast
  from i have ids: "ids = [0, 2, 3]" by (simp only: fm so)
  from s have "SearchEngine_search ascending E Q = Inr (e', [(0, 2, 2, True), (2, 2, 2, True), (3, 1, 1, False)])"
    by (simp add: ids f0 f2 f3)
  then have "\<exists>e'. SearchEngine_search ascending E Q
          = Inr (e', [(0, 2, 2, True), (2, 2, 2, True), (3, 1, 1, False)])" ..
  moreover from m have "{d. 0 < matchCount E Q d} = {0, 2, 3}" by (simp add: ids)
  ultimately show ?thesis using ok unfolding E_def Q_def by (intro conjI)
qed

text \<open>
  C2: on the documents of the main program the query algorithm lists documents 1 and 2 with
  the frequency sum 1, the count their tables hold for algorithm.
\<close>

lemma Main_algorithm_found:
  "first_matched ascending (snd (ingest_all Main_docs)) ''algorithm'' = [Suc 0, 2]"
  "found_of (snd (ingest_all Main_docs)) ''algorithm'' (Suc 0) = (Suc 0, 1, 1, True)"
  "found_of (snd (ingest_all Main_docs)) ''algorithm'' 2 = (2, 1, 1, True)"
  by (simp add: eval_first tokenize_queries lower_singular_queries tokenize_Main Main_docs_def,
      (simp add: eval_found tokenize_queries lower_singular_queries tokenize_Main Main_docs_def,
       simp add: eval_text)+)

lemma Main_algorithm_rows:
  "search_rows ascending (snd (ingest_all Main_docs)) ''algorithm'' = Inr [(1, 1, 1, True), (2, 1, 1, True)]"
  by (simp add: search_rows_closed_form[OF ingest_all_engine_ok] Main_algorithm_found
        rank_key_found less_eq_prod_def)

theorem Main_algorithm_counterexample:
  "search_rows ascending (snd (ingest_all Main_docs)) ''algorithm'' = Inr [(1, 1, 1, True), (2, 1, 1, True)]
   \<and> wordFrequency (pages (snd (ingest_all Main_docs)) ! 1) ''algorithm'' = Some 1
   \<and> wordFrequency (pages (snd (ingest_all Main_docs)) ! 2) ''algorithm'' = Some 1"
proof (intro conjI)
  show "search_rows ascending (snd (ingest_all Main_docs)) ''algorithm''
          = Inr [(1, 1, 1, True), (2, 1, 1, True)]"
    by (rule Main_algorithm_rows)
  show "wordFrequency (pages (snd (ingest_all Main_docs)) ! 1) ''algorithm'' = Some 1"
    by (simp add: ingest_all_pages page_of_def token_count_def tokenize_Main Main_docs_def)
  show "wordFrequency (pages (snd (ingest_all Main_docs)) ! 2) ''algorithm'' = Some 1"
    by (simp add: ingest_all_pages page_of_def token_count_def tokenize_Main Main_docs_def)
qed

text \<open>The two lines of that query, for every iteration order of the result set.\<close>

lemma Main_algorithm_any_order:
  "\<exists>e' rows. SearchEngine_search place (snd (ingest_all Main_docs)) ''algorithm'' = Inr (e', rows)
     \<and> set rows = {(1, 1, 1, True), (2, 1, 1, True)} \<and> length rows = 2"
proof -
  define E where "E = snd (ingest_all Main_docs)"
  have ok: "engine_ok E" unfolding E_def by (rule ingest_all_engine_ok)
  have "set (first_matched place E ''algorithm'') = set (first_matched ascending E ''algorithm'')"
    by (simp only: set_first_matched[OF ok])
  then have fm: "set (first_matched place E ''algorithm'') = {Suc 0, 2}"
    unfolding E_def by (simp add: Main_algorithm_found)
  have d: "distinct (first_matched place E ''algorithm'')"
    by (simp add: first_matched_def distinct_first_occ)
  have l: "length (first_matched place E ''algorithm'') = 2"
    using distinct_card[OF d] by (simp add: fm)
  from search_closed_form[OF ok, of place "''algorithm''"] obtain ps where
    s: "SearchEngine_search place E ''algorithm'' =
         Inr (E\<lparr>pages := ps\<rparr>,
              map (found_of E ''algorithm'')
                (sort_key (rank_key E ''algorithm'') (first_matched place E ''algorithm'')))"
    by blast
  have "set (map (found_of E ''algorithm'')
                (sort_key (rank_key E ''algorithm'') (first_matched place E ''algorithm''))) =
        {(1, 1, 1, True), (2, 1, 1, True)}"
    using Main_algorithm_found(2,3)[folded E_def] by (simp add: fm)
  with s l show ?thesis unfolding E_def by simp
qed

text \<open>
  C2, as the code has it: after ingesting the four documents of the main program, the query
  algorithm returns exactly the two documents whose content has the word algorithms,
  documents 1 and 2 (in this order when the result set is iterated by ascending id, as
  CPython does for these two ids, and in either order the same two lines); documents 0 and 3
  have the match count 0 and are not listed. Each frequency sum is the count that the
  document's frequency table holds for the token algorithm, which is 1: the word algorithm
  is not in the content, but tokenization stores the derived singular of each algorithms.
\<close>

theorem Main_algorithm_ranked:
  "(\<exists>e'. SearchEngine_search ascending (snd (ingest_all Main_docs)) ''algorithm''
           = Inr (e', [(1, 1, 1, True), (2, 1, 1, True)]))
   \<and> (\<forall>place. \<exists>e' rows.
          SearchEngine_search place (snd (ingest_all Main_docs)) ''algorithm'' = Inr (e', rows)
          \<and> set rows = {(1, 1, 1, True), (2, 1, 1, True)} \<and> length rows = 2)
   \<and> filter (\<lambda>i. ''algorithms'' \<in> set (words_of (snd (Main_docs ! i)))) [0..<length Main_docs]
       = [1, 2]
   \<and> matchCount (snd (ingest_all Main_docs)) ''algorithm'' 0 = 0
   \<and> matchCount (snd (ingest_all Main_docs)) ''algorithm'' 3 = 0
   \<and> dd_val (wordFrequency (pages (snd (ingest_all Main_docs)) ! 1)) ''algorithm'' = 1
   \<and> dd_val (wordFrequency (pages (snd (ingest_all Main_docs)) ! 2)) ''algorithm'' = 1
   \<and> count_list (words_of (snd (Main_docs ! 1))) ''algorithm'' = 0
   \<and> count_list (words_of (snd (Main_docs ! 2))) ''algorithm'' = 0
   \<and> count_list (words_of (snd (Main_docs ! 1))) ''algorithms'' = 1
   \<and> count_list (words_of (snd (Main_docs ! 2))) ''algorithms'' = 1"
proof -
  have r: "\<exists>e'. SearchEngine_search ascending (snd (ingest_all Main_docs)) ''algorithm''
           = Inr (e', [(1, 1, 1, True), (2, 1, 1, True)])"
  proof -
    from search_closed_form[OF ingest_all_engine_ok, of ascending Main_docs "''algorithm''"] obtain ps where
      "SearchEngine_search ascending (snd (ingest_all Main_docs)) ''algorithm'' =
         Inr ((snd (ingest_all Main_docs))\<lparr>pages := ps\<rparr>,
              map (found_of (snd (ingest_all Main_docs)) ''algorithm'')
                (sort_key (rank_key (snd (ingest_all Main_docs)) ''algorithm'')
                   (first_matched ascending (snd (ingest_all Main_docs)) ''algorithm'')))"
      by blast
    then show ?thesis
      by (simp add: Main_algorithm_found rank_key_found less_eq_prod_def)
  qed
  have w: "words_of ''This is an example page with a search engine.'' =
             [''this'', ''is'', ''an'', ''example'', ''page'', ''with'', ''a'', ''search'', ''engine'']"
    "words_of ''Another example page with algorithms and data.'' =
             [''another'', ''example'', ''page'', ''with'', ''algorithms'', ''and'', ''data'']"
    "words_of ''The news are spreading quickly. Search engines use algorithms.'' =
             [''the'', ''news'', ''are'', ''spreading'', ''quickly'', ''search'', ''engines'', ''use'',
              ''algorithms'']"
    "words_of ''Exact match test: example search'' =
             [''exact'', ''match'', ''test'', ''example'', ''search'']"
    by (simp_all add: words_of_def eval_text)
  have f: "filter (\<lambda>i. ''algorithms'' \<in> set (words_of (snd (Main_docs ! i)))) [0..<length Main_docs]
       = [1, 2]"
    by (simp add: Main_docs_def w)
  have m: "matchCount (snd (ingest_all Main_docs)) ''algorithm'' 0 = 0"
    "matchCount (snd (ingest_all Main_docs)) ''algorithm'' 3 = 0"
    by (simp_all add: matchCount_def search_ingested_iff tokenize_queries lower_singular_queries
          tokenize_Main Main_docs_def)
  have c: "dd_val (wordFrequency (pages (snd (ingest_all Main_docs)) ! 1)) ''algorithm'' = 1"
    "dd_val (wordFrequency (pages (snd (ingest_all Main_docs)) ! 2)) ''algorithm'' = 1"
    by (simp_all add: dd_val_def ingest_all_pages page_of_def token_count_def tokenize_Main
          Main_docs_def)
  have v: "count_list (words_of (snd (Main_docs ! 1))) ''algorithm'' = 0"
    "count_list (words_of (snd (Main_docs ! 2))) ''algorithm'' = 0"
    "count_list (words_of (snd (Main_docs ! 1))) ''algorithms'' = 1"
    "count_list (words_of (snd (Main_docs ! 2))) ''algorithms'' = 1"
    by (simp_all add: Main_docs_def w)
  from r Main_algorithm_any_order f m c v show ?thesis by (intro conjI allI)
qed

text \<open>
  C5: a document with cookies is not returned for cookie, nor one with cookie for cookies.
\<close>

theorem cookies_counterexample:
  "InvertedIndex_search (index (snd (ingest_all [(''https://example.com'', ''cookies'')]))) ''cookie''
     = {}
   \<and> InvertedIndex_search (index (snd (ingest_all [(''https://example.com'', ''cookie'')]))) ''cookies''
     = {}
   \<and> to_singular ''cookies'' = ''cooky''"
  by (simp add: search_ingested_set tokenize_cookies)

theorem lookup_union_witness:
  "0 \<in> InvertedIndex_search (index (snd (ingest_all [(''https://example.com'', ''cats'')]))) ''cat''
   \<and> 0 \<in> InvertedIndex_search (index (snd (ingest_all [(''https://example.com'', ''cat'')]))) ''cats''
   \<and> InvertedIndex_search Map.empty ''cats'' = {}"
proof -
  have w1: "words_of ''cats'' = [''cats'']" and w2: "words_of ''cat'' = [''cat'']"
    by (simp_all add: words_of_def eval_text)
  have s: "''cats'' \<notin> set stopWords" "''cat'' \<notin> set stopWords"
    by (simp_all add: stopWords_def)
  note a = lookup_union[of Map.empty "''cats''" 0 "[(''https://example.com'', ''cats'')]" "''cats''"]
  note b = lookup_union[of Map.empty "''cats''" 0 "[(''https://example.com'', ''cat'')]" "''cat''"]
  have 1: "0 \<in> InvertedIndex_search (index (snd (ingest_all [(''https://example.com'', ''cats'')])))
             (to_singular ''cats'')"
    using a by (simp add: w1 s)
  have 2: "0 \<in> InvertedIndex_search (index (snd (ingest_all [(''https://example.com'', ''cat'')])))
             ''cats''"
    using b by (simp add: w2 s lower_singular_cat)
  have 3: "InvertedIndex_search Map.empty ''cats'' = {}"
    by (rule mp[OF a[THEN conjunct2, THEN conjunct1]]) simp
  from 1 2 3 show ?thesis by (simp add: lower_singular_cat)
qed

text \<open>
  C9: two surface forms with one derived singular are counted together (ponies and ponys
  give pony the count 2), and an occurrence of the singular that is a stopword is not counted
  (ins and in give in the count 1).
\<close>

theorem singular_count_counterexample:
  "wordFrequency (fst (WebPage_init ''https://example.com'' ''ponies ponys'' Trie_empty)) ''pony''
     = Some 2
   \<and> to_singular ''ponies'' = ''pony''
   \<and> count_list (words_of ''ponies ponys'') ''ponies'' = 1
   \<and> count_list (words_of ''ponies ponys'') ''pony'' = 0
   \<and> wordFrequency (fst (WebPage_init ''https://example.com'' ''ins in'' Trie_empty)) ''in''
     = Some 1
   \<and> to_singular ''ins'' = ''in''
   \<and> count_list (words_of ''ins in'') ''ins'' = 1
   \<and> count_list (words_of ''ins in'') ''in'' = 1"
  by (simp add: WebPage_init_page page_of_def token_count_def words_of_def eval_text)

theorem singular_token_stored_witness:
  "wordFrequency (pages (snd (ingest_all [(''https://example.com'', ''cats cat'')])) ! 0) ''cat''
     = Some 2
   \<and> Trie_search (fst (ingest_all [(''https://example.com'', ''cats cat'')])) ''cat''
   \<and> 0 \<in> postings (index (snd (ingest_all [(''https://example.com'', ''cats cat'')]))) ''cat''"
proof -
  have w: "words_of ''cats cat'' = [''cats'', ''cat'']"
    by (simp add: words_of_def eval_text)
  have s: "''cats'' \<notin> set stopWords" "''cat'' \<notin> set stopWords"
    by (simp_all add: stopWords_def)
  have "0 < length [(''https://example.com'', ''cats cat'')]" by simp
  moreover have "''cats'' \<in> set (words_of (snd ([(''https://example.com'', ''cats cat'')] ! 0)))"
    by (simp add: w)
  ultimately show ?thesis
    using singular_token_stored[of 0 "[(''https://example.com'', ''cats cat'')]" "''cats''"] s
    by (simp add: w lower_singular_cat)
qed

end
